theory Spec2Isabelle
  imports Main
begin

section \<open>Data model of the tracker (src/tracking.cc)\<close>

text \<open>
  Modelled from the spec: \<open>TimeStamp\<close> and \<open>TimeSpan\<close> are declared in externis.h, which
  is not among the sources. Timestamps are nanoseconds since the start of the
  compilation. The source stores them in signed 64-bit integers (\<open>int64_t\<close> in the maps
  of tracking.cc). They are modelled as integers, and every addition that the source
  performs on a timestamp goes through \<open>int64\<close>, which wraps the sum around into the
  range of \<open>int64_t\<close>. Signed overflow is undefined in C++; the wrapped value is what the
  two's-complement machine gives. No addition of the source wraps as long as the clock
  readings stay in the range \<open>0 .. 2^63 - 7\<close>.
\<close>

type_synonym TimeStamp = int

definition int64 :: "int \<Rightarrow> TimeStamp" where
  "int64 x = (x + 2 ^ 63) mod 2 ^ 64 - 2 ^ 63"

record TimeSpan =
  span_start :: TimeStamp
  span_end :: TimeStamp

text \<open>
  Modelled from the spec: the enumeration \<open>EventCategory\<close> of externis.h, with the
  members that the spec lists and the two source files use.
\<close>

datatype EventCategory =
  PREPROCESS | FUNCTION | NAMESPACE | STRUCT
  | GIMPLE_PASS | RTL_PASS | SIMPLE_IPA_PASS | IPA_PASS | UNKNOWN

text \<open>
  Modelled from the spec: \<open>TraceEvent\<close> of externis.h, with the four members that the
  trackers initialise when they hand an event to \<open>add_event\<close>: name, category, span and
  the pair (has arguments, arguments) that the source builds with \<open>std::make_pair\<close>.
\<close>

record TraceEvent =
  ev_name :: string
  ev_category :: EventCategory
  ev_ts :: TimeSpan
  ev_args :: "bool \<times> (string \<times> string) list"

text \<open>The part of GCC's \<open>opt_pass\<close> that the tracker reads.\<close>

datatype opt_pass_type = OPT_GIMPLE_PASS | OPT_RTL_PASS | OPT_SIMPLE_IPA_PASS | OPT_IPA_PASS

record opt_pass =
  pass_name :: string
  pass_kind :: opt_pass_type
  static_pass_number :: int

text \<open>
  The event structs of tracking.cc. Field names are global in a theory, so the members
  \<open>name\<close>, \<open>type\<close>, \<open>ts\<close>, \<open>file_name\<close> and \<open>pass\<close> carry the initials of their struct. In
  \<open>OptPassEvent\<close> the pass pointer may be null, hence the option.
\<close>

record OptPassEvent =
  ope_pass :: "opt_pass option"
  ope_ts :: TimeSpan

record ScopeEvent =
  se_name :: string
  se_type :: EventCategory
  se_ts :: TimeSpan

record FunctionEvent =
  fe_name :: string
  fe_file_name :: string
  fe_ts :: TimeSpan

text \<open>
  Modelled from the spec: \<open>FinishedFunction\<close> of externis.h, with the members that
  \<open>cb_finish_parse_function\<close> (src/externis.cc) initialises; the declaration pointer,
  which the tracker never reads, is left out. The scope name is a nullable C string. The
  file name is the \<open>file\<close> of \<open>finish_function(name, file, scope_name?, scope_category?)\<close>,
  which the spec gives as a string that is always there; \<open>write_all_functions\<close> builds
  a \<open>std::string\<close> from the pointer, so the source relies on it as well.
\<close>

record FinishedFunction =
  ff_name :: string
  ff_file_name :: string
  ff_scope_name :: "string option"
  ff_scope_type :: EventCategory

text \<open>
  What \<open>start_preprocess_file\<close> learns through a non-null \<open>cpp_reader\<close>: the results of
  \<open>realpath\<close> on the include directory of the current buffer and on the file name, each
  of which may be null.
\<close>

record cpp_reader =
  real_dir_name :: "string option"
  real_file_name :: "string option"

text \<open>
  Failures; the warnings that the source prints to \<open>stderr\<close> change no state and are not
  modelled. \<open>Out_Of_Range\<close> is the exception that \<open>std::string::substr\<close> and
  \<open>map::at\<close> throw (nothing catches it, so the process terminates);
  \<open>Undefined_Behaviour\<close> marks the places where the source reads the top of an empty
  \<open>std::stack\<close> or dereferences a null pass pointer without any check of its own.
\<close>

datatype failure = Out_Of_Range | Undefined_Behaviour

text \<open>
  The globals of the anonymous namespace, the static local
  \<open>did_last_function_have_scope\<close>, the number of clock readings taken so far and the
  sequence of events passed to \<open>add_event\<close>. \<open>preprocess_start\<close> is iterated by the
  emitter, so it is an association list (keys are inserted only when absent, in order of
  insertion; the order of iteration of the source's container is not specified and no
  theorem below depends on it). The stack has its top at the head.
\<close>

record tracker =
  preprocess_start :: "(string \<times> int) list"
  preprocess_end :: "string \<rightharpoonup> int"
  preprocessing_stack :: "string list"
  last_function_parsed_ts :: TimeStamp
  last_pass :: OptPassEvent
  pass_events :: "OptPassEvent list"
  file_to_include_directory :: "string \<rightharpoonup> string"
  normalized_files_map :: "string \<rightharpoonup> string"
  normalized_files :: "string set"
  conflicted_files :: "string set"
  scope_events :: "ScopeEvent list"
  function_events :: "FunctionEvent list"
  did_last_function_have_scope :: bool
  clock_reads :: nat
  trace_buffer :: "TraceEvent list"

text \<open>The globals are zero-initialised and the containers start empty.\<close>

definition initial_tracker :: tracker where
  "initial_tracker =
     \<lparr>preprocess_start = [], preprocess_end = Map.empty, preprocessing_stack = [],
      last_function_parsed_ts = 0,
      last_pass = \<lparr>ope_pass = None, ope_ts = \<lparr>span_start = 0, span_end = 0\<rparr>\<rparr>,
      pass_events = [],
      file_to_include_directory = Map.empty, normalized_files_map = Map.empty,
      normalized_files = {}, conflicted_files = {},
      scope_events = [], function_events = [],
      did_last_function_have_scope = False,
      clock_reads = 0, trace_buffer = []\<rparr>"

definition CIRCULAR_POISON_VALUE :: string where
  "CIRCULAR_POISON_VALUE = ''CIRCULAR_POISON_VALUE_95d6021c''"

section \<open>Collaborators declared in externis.h\<close>

text \<open>
  Modelled from the spec: \<open>ns_from_start\<close> is declared in externis.h, which is not among
  the sources. The spec treats the clock as injected input, so the clock is a parameter:
  \<open>clk n\<close> is the value of the \<open>n\<close>-th reading, and every call consumes one reading.
  A reading that the program takes is an \<open>int64_t\<close>; the theorems about computed
  timestamps say so with \<open>int64_readings\<close>, for the readings that the calls consume.
\<close>

type_synonym clock = "nat \<Rightarrow> TimeStamp"

definition ns_from_start :: "clock \<Rightarrow> tracker \<Rightarrow> TimeStamp \<times> tracker" where
  "ns_from_start clk s = (clk (clock_reads s), s\<lparr>clock_reads := Suc (clock_reads s)\<rparr>)"

text \<open>
  Modelled from the spec: \<open>add_event\<close> is declared in externis.h, its body is not among
  the sources. The trace buffer is an append-only sequence in the order of the calls, so
  the model records the arguments of the calls in order.
\<close>

definition add_event :: "TraceEvent \<Rightarrow> tracker \<Rightarrow> tracker" where
  "add_event e s = s\<lparr>trace_buffer := trace_buffer s @ [e]\<rparr>"

section \<open>Path normalizer\<close>

definition starts_with :: "string \<Rightarrow> string \<Rightarrow> bool" where
  "starts_with check match \<longleftrightarrow>
     length match \<le> length check \<and> take (length match) check = match"

text \<open>\<open>std::string::substr(pos)\<close>: throws when \<open>pos\<close> is beyond the size.\<close>

definition substr :: "string \<Rightarrow> nat \<Rightarrow> failure + string" where
  "substr str pos = (if length str < pos then Inl Out_Of_Range else Inr (drop pos str))"

definition register_include_location :: "string \<Rightarrow> string \<Rightarrow> tracker \<Rightarrow> failure + tracker" where
  "register_include_location file_name dir_name s =
     (if file_to_include_directory s file_name = None then
        let s1 = s\<lparr>file_to_include_directory := (file_to_include_directory s)(file_name \<mapsto> dir_name)\<rparr>
        in if starts_with file_name dir_name then
             (case substr file_name (length dir_name + 1) of
                Inl e \<Rightarrow> Inl e
              | Inr normalized_file \<Rightarrow>
                  let s2 = s1\<lparr>normalized_files_map := (normalized_files_map s1)(file_name \<mapsto> normalized_file)\<rparr>
                  in if normalized_file \<in> normalized_files s2
                     then Inr (s2\<lparr>conflicted_files := insert normalized_file (conflicted_files s2)\<rparr>)
                     else Inr (s2\<lparr>normalized_files := insert normalized_file (normalized_files s2)\<rparr>))
           else Inr s1
      else Inr s)"

definition normalized_file_name :: "tracker \<Rightarrow> string \<Rightarrow> string" where
  "normalized_file_name s file_name =
     (case normalized_files_map s file_name of
        Some normalized_file \<Rightarrow>
          if normalized_file \<notin> conflicted_files s then normalized_file else file_name
      | None \<Rightarrow> file_name)"

definition pass_type :: "opt_pass_type \<Rightarrow> EventCategory" where
  "pass_type t = (case t of
       OPT_GIMPLE_PASS \<Rightarrow> GIMPLE_PASS
     | OPT_RTL_PASS \<Rightarrow> RTL_PASS
     | OPT_SIMPLE_IPA_PASS \<Rightarrow> SIMPLE_IPA_PASS
     | OPT_IPA_PASS \<Rightarrow> IPA_PASS)"

section \<open>Preprocessing stack tracker\<close>

definition end_preprocess_file :: "clock \<Rightarrow> tracker \<Rightarrow> failure + tracker" where
  "end_preprocess_file clk s0 =
     (let (now, s) = ns_from_start clk s0 in
      case preprocessing_stack s of
        [] \<Rightarrow> Inl Undefined_Behaviour
      | top_file # below \<Rightarrow>
          let s1 = (if preprocess_end s top_file = None
                    then s\<lparr>preprocess_end := (preprocess_end s)(top_file \<mapsto> now)\<rparr> else s)
          in Inr (s1\<lparr>preprocessing_stack := below, last_function_parsed_ts := int64 (now + 3)\<rparr>))"

function finish_preprocessing_stage :: "clock \<Rightarrow> tracker \<Rightarrow> failure + tracker" where
  "finish_preprocessing_stage clk s =
     (if preprocessing_stack s \<noteq> [] then
        (case end_preprocess_file clk s of
           Inl e \<Rightarrow> Inl e
         | Inr s1 \<Rightarrow>
             let (now, s2) = ns_from_start clk s1
             in finish_preprocessing_stage clk (s2\<lparr>last_function_parsed_ts := now\<rparr>))
      else Inr s)"
  by pat_completeness auto
termination
  by (relation "measure (\<lambda>(clk, s). length (preprocessing_stack s))")
     (auto simp: end_preprocess_file_def ns_from_start_def Let_def split: list.splits if_splits)

declare finish_preprocessing_stage.simps [simp del]

definition start_preprocess_file ::
  "clock \<Rightarrow> string option \<Rightarrow> cpp_reader option \<Rightarrow> tracker \<Rightarrow> failure + tracker" where
  "start_preprocess_file clk file_name pfile s0 =
     (let (now, s) = ns_from_start clk s0 in
      case file_name of
        None \<Rightarrow> Inr s
      | Some fname \<Rightarrow>
          if fname = ''<command-line>'' then Inr s
          else
            let circular = (map_of (preprocess_start s) fname \<noteq> None \<and> preprocess_end s fname = None);
                fname1 = (if circular then CIRCULAR_POISON_VALUE else fname);
                pfile1 = (if circular then None else pfile);
                s1 = (if map_of (preprocess_start s) fname1 = None
                      then s\<lparr>preprocess_start := preprocess_start s @ [(fname1, now)]\<rparr> else s);
                s2 = s1\<lparr>preprocessing_stack := fname1 # preprocessing_stack s1\<rparr>
            in case pfile1 of
                 None \<Rightarrow> Inr s2
               | Some reader \<Rightarrow>
                   (case real_dir_name reader of
                      None \<Rightarrow> Inr s2
                    | Some dir \<Rightarrow>
                        (case real_file_name reader of
                           None \<Rightarrow> Inr s2
                         | Some file \<Rightarrow> register_include_location file dir s2)))"

text \<open>
  The loop of \<open>write_preprocessing_events\<close> over the entries of \<open>preprocess_start\<close>;
  \<open>preprocess_end.at(file)\<close> throws when the file has no recorded end. The loop visits
  the entries in the order of the list, the source in the order of iteration of its
  \<open>map_t\<close>; the theorems about the emission count the events or relate them to the
  entries one to one, which is the same for every order of iteration.
\<close>

definition preprocess_trace_event :: "tracker \<Rightarrow> string \<Rightarrow> int \<Rightarrow> int \<Rightarrow> TraceEvent" where
  "preprocess_trace_event s file start finish =
     \<lparr>ev_name = normalized_file_name s file, ev_category = PREPROCESS,
      ev_ts = \<lparr>span_start = start, span_end = finish\<rparr>, ev_args = (False, [])\<rparr>"

fun write_preprocessing_loop :: "(string \<times> int) list \<Rightarrow> tracker \<Rightarrow> failure + tracker" where
  "write_preprocessing_loop [] s = Inr s"
| "write_preprocessing_loop ((file, start) # rest) s =
     (if file = CIRCULAR_POISON_VALUE then write_preprocessing_loop rest s
      else case preprocess_end s file of
             None \<Rightarrow> Inl Out_Of_Range
           | Some finish \<Rightarrow>
               write_preprocessing_loop rest (add_event (preprocess_trace_event s file start finish) s))"

definition write_preprocessing_events :: "clock \<Rightarrow> tracker \<Rightarrow> failure + tracker" where
  "write_preprocessing_events clk s =
     (case finish_preprocessing_stage clk s of
        Inl e \<Rightarrow> Inl e
      | Inr s1 \<Rightarrow> write_preprocessing_loop (preprocess_start s1) s1)"

section \<open>Pass tracker\<close>

definition start_opt_pass :: "clock \<Rightarrow> opt_pass option \<Rightarrow> tracker \<Rightarrow> tracker" where
  "start_opt_pass clk pass s0 =
     (let (now, s) = ns_from_start clk s0;
          closed = (last_pass s)\<lparr>ope_ts := (ope_ts (last_pass s))\<lparr>span_end := now\<rparr>\<rparr>;
          s1 = (if ope_pass closed \<noteq> None
                then s\<lparr>pass_events := pass_events s @ [closed]\<rparr> else s)
      in s1\<lparr>last_pass := \<lparr>ope_pass = pass, ope_ts = (ope_ts closed)\<lparr>span_start := int64 (now + 1)\<rparr>\<rparr>\<rparr>)"

text \<open>\<open>std::to_string\<close> on an \<open>int\<close>: decimal digits, with a minus sign when negative.\<close>

fun decimal_digits :: "nat \<Rightarrow> string" where
  "decimal_digits n =
     (if n < 10 then [char_of (48 + n)]
      else decimal_digits (n div 10) @ [char_of (48 + n mod 10)])"

declare decimal_digits.simps [simp del]

definition to_string :: "int \<Rightarrow> string" where
  "to_string i = (if i < 0 then CHR ''-'' # decimal_digits (nat (- i)) else decimal_digits (nat i))"

definition pass_trace_event :: "opt_pass \<Rightarrow> TimeSpan \<Rightarrow> TraceEvent" where
  "pass_trace_event pass ts =
     \<lparr>ev_name = pass_name pass, ev_category = pass_type (pass_kind pass), ev_ts = ts,
      ev_args = (True, [(''static_pass_number'', to_string (static_pass_number pass))])\<rparr>"

fun write_opt_pass_loop :: "OptPassEvent list \<Rightarrow> tracker \<Rightarrow> failure + tracker" where
  "write_opt_pass_loop [] s = Inr s"
| "write_opt_pass_loop (event # rest) s =
     (case ope_pass event of
        None \<Rightarrow> Inl Undefined_Behaviour
      | Some pass \<Rightarrow> write_opt_pass_loop rest (add_event (pass_trace_event pass (ope_ts event)) s))"

definition write_opt_pass_events :: "tracker \<Rightarrow> failure + tracker" where
  "write_opt_pass_events s = write_opt_pass_loop (pass_events s) s"

section \<open>Scope and function tracker\<close>

definition end_parse_function :: "clock \<Rightarrow> FinishedFunction \<Rightarrow> tracker \<Rightarrow> tracker" where
  "end_parse_function clk info s0 =
     (let (now, s) = ns_from_start clk s0;
          ts = \<lparr>span_start = int64 (last_function_parsed_ts s + 3), span_end = now\<rparr>;
          s1 = s\<lparr>last_function_parsed_ts := now,
                 function_events := function_events s @
                   [\<lparr>fe_name = ff_name info, fe_file_name = ff_file_name info, fe_ts = ts\<rparr>]\<rparr>
      in case ff_scope_name info of
           Some scope_name \<Rightarrow>
             (if scope_events s1 \<noteq> [] \<and> did_last_function_have_scope s1 \<and>
                 se_name (last (scope_events s1)) = scope_name
              then s1\<lparr>scope_events := butlast (scope_events s1) @
                        [(last (scope_events s1))\<lparr>se_ts := (se_ts (last (scope_events s1)))\<lparr>span_end := int64 (span_end ts + 1)\<rparr>\<rparr>],
                      did_last_function_have_scope := True\<rparr>
              else s1\<lparr>scope_events := scope_events s1 @
                        [\<lparr>se_name = scope_name, se_type = ff_scope_type info,
                          se_ts = \<lparr>span_start = int64 (span_start ts - 1),
                                   span_end = int64 (span_end ts + 1)\<rparr>\<rparr>],
                      did_last_function_have_scope := True\<rparr>)
         | None \<Rightarrow> s1\<lparr>did_last_function_have_scope := False\<rparr>)"

definition scope_trace_event :: "ScopeEvent \<Rightarrow> TraceEvent" where
  "scope_trace_event item =
     \<lparr>ev_name = se_name item, ev_category = se_type item, ev_ts = se_ts item,
      ev_args = (False, [])\<rparr>"

definition write_all_scopes :: "tracker \<Rightarrow> tracker" where
  "write_all_scopes s = fold (\<lambda>item. add_event (scope_trace_event item)) (scope_events s) s"

definition function_trace_event :: "tracker \<Rightarrow> FunctionEvent \<Rightarrow> TraceEvent" where
  "function_trace_event s item =
     \<lparr>ev_name = fe_name item, ev_category = FUNCTION, ev_ts = fe_ts item,
      ev_args = (True, [(''file'', normalized_file_name s (fe_file_name item))])\<rparr>"

definition write_all_functions :: "tracker \<Rightarrow> tracker" where
  "write_all_functions s = fold (\<lambda>item. add_event (function_trace_event s item)) (function_events s) s"

section \<open>The calls of the instrumentation layer (src/externis.cc)\<close>

datatype call =
  StartPreprocessFile "string option" "cpp_reader option"
  | EndPreprocessFile
  | FinishPreprocessingStage
  | StartOptPass "opt_pass option"
  | EndParseFunction FinishedFunction
  | WritePreprocessingEvents
  | WriteOptPassEvents
  | WriteAllScopes
  | WriteAllFunctions

text \<open>Two clocks for the concrete runs below: one that is stuck, one that advances.\<close>

definition frozen_clock :: clock where
  "frozen_clock n = 100"

definition ticking_clock :: clock where
  "ticking_clock n = 10 * int n + 10"

fun step :: "clock \<Rightarrow> call \<Rightarrow> tracker \<Rightarrow> failure + tracker" where
  "step clk (StartPreprocessFile file_name pfile) s = start_preprocess_file clk file_name pfile s"
| "step clk EndPreprocessFile s = end_preprocess_file clk s"
| "step clk FinishPreprocessingStage s = finish_preprocessing_stage clk s"
| "step clk (StartOptPass pass) s = Inr (start_opt_pass clk pass s)"
| "step clk (EndParseFunction info) s = Inr (end_parse_function clk info s)"
| "step clk WritePreprocessingEvents s = write_preprocessing_events clk s"
| "step clk WriteOptPassEvents s = write_opt_pass_events s"
| "step clk WriteAllScopes s = Inr (write_all_scopes s)"
| "step clk WriteAllFunctions s = Inr (write_all_functions s)"

fun run :: "clock \<Rightarrow> call list \<Rightarrow> tracker \<Rightarrow> failure + tracker" where
  "run clk [] s = Inr s"
| "run clk (c # cs) s = (case step clk c s of Inl e \<Rightarrow> Inl e | Inr s1 \<Rightarrow> run clk cs s1)"

section \<open>Predicates of the statements\<close>

text \<open>A span is in order when it does not end before it starts.\<close>

definition span_ok :: "TimeSpan \<Rightarrow> bool" where
  "span_ok ts \<longleftrightarrow> span_start ts \<le> span_end ts"

text \<open>
  The file names that \<open>start_preprocess_file\<close> returns on at once: the null pointer and
  the name of the command line.
\<close>

definition ignored_file_name :: "string option \<Rightarrow> bool" where
  "ignored_file_name file_name \<longleftrightarrow> file_name = None \<or> file_name = Some ''<command-line>''"

text \<open>
  A sequence of calls is well nested when no \<open>end_preprocess_file\<close> finds the stack
  empty; the first argument is the depth of the stack before the calls. The drain (on its
  own or at the start of \<open>write_preprocessing_events\<close>) empties the stack.
\<close>

fun nesting :: "nat \<Rightarrow> call list \<Rightarrow> bool" where
  "nesting d [] = True"
| "nesting d (StartPreprocessFile file_name pfile # cs) =
     nesting (if ignored_file_name file_name then d else Suc d) cs"
| "nesting d (EndPreprocessFile # cs) = (0 < d \<and> nesting (d - 1) cs)"
| "nesting d (FinishPreprocessingStage # cs) = nesting 0 cs"
| "nesting d (WritePreprocessingEvents # cs) = nesting 0 cs"
| "nesting d (StartOptPass pass # cs) = nesting d cs"
| "nesting d (EndParseFunction info # cs) = nesting d cs"
| "nesting d (WriteOptPassEvents # cs) = nesting d cs"
| "nesting d (WriteAllScopes # cs) = nesting d cs"
| "nesting d (WriteAllFunctions # cs) = nesting d cs"

definition well_nested :: "call list \<Rightarrow> bool" where
  "well_nested cs = nesting 0 cs"

text \<open>
  \<open>realpath\<close> never answers with the same path for a file and for the directory the file
  was found in; a call whose reader did would make \<open>substr\<close> throw.
\<close>

fun resolves :: "call \<Rightarrow> bool" where
  "resolves (StartPreprocessFile file_name (Some reader)) =
     (real_dir_name reader = None \<or> real_file_name reader \<noteq> real_dir_name reader)"
| "resolves c = True"

text \<open>The file names that a sequence of calls enters, in order, with repetitions.\<close>

fun entered_file :: "call \<Rightarrow> string list" where
  "entered_file (StartPreprocessFile (Some fname) pfile) =
     (if fname = ''<command-line>'' then [] else [fname])"
| "entered_file c = []"

definition entered_files :: "call list \<Rightarrow> string list" where
  "entered_files cs = concat (map entered_file cs)"

text \<open>
  The first half of \<open>start_preprocess_file\<close> for a file name that is not ignored: the
  test for a circular include, the name that goes on the stack, and the state after the
  push (before any directory is looked up).
\<close>

definition circular_include :: "tracker \<Rightarrow> string \<Rightarrow> bool" where
  "circular_include s fname \<longleftrightarrow>
     map_of (preprocess_start s) fname \<noteq> None \<and> preprocess_end s fname = None"

definition pushed_name :: "tracker \<Rightarrow> string \<Rightarrow> string" where
  "pushed_name s fname = (if circular_include s fname then CIRCULAR_POISON_VALUE else fname)"

definition push_file :: "clock \<Rightarrow> string \<Rightarrow> tracker \<Rightarrow> tracker" where
  "push_file clk fname s =
     s\<lparr>clock_reads := Suc (clock_reads s),
       preprocess_start :=
         (if map_of (preprocess_start s) (pushed_name s fname) = None
          then preprocess_start s @ [(pushed_name s fname, clk (clock_reads s))]
          else preprocess_start s),
       preprocessing_stack := pushed_name s fname # preprocessing_stack s\<rparr>"

text \<open>
  The shape of the preprocessing maps in every reachable state: a file has one start
  entry at most, everything on the stack and everything with an end has a start, and a
  file with a start has an end or is still on the stack.
\<close>

definition preprocess_inv :: "tracker \<Rightarrow> bool" where
  "preprocess_inv s \<longleftrightarrow>
     distinct (map fst (preprocess_start s)) \<and>
     set (preprocessing_stack s) \<subseteq> fst ` set (preprocess_start s) \<and>
     dom (preprocess_end s) \<subseteq> fst ` set (preprocess_start s) \<and>
     (\<forall>f \<in> fst ` set (preprocess_start s).
        f \<in> dom (preprocess_end s) \<or> f \<in> set (preprocessing_stack s))"

text \<open>
  The recorded times in every reachable state, for a clock that never goes back: every
  recorded start is a past reading, and no recorded end lies before the start of its
  file.
\<close>

definition preprocess_times :: "clock \<Rightarrow> tracker \<Rightarrow> bool" where
  "preprocess_times clk s \<longleftrightarrow>
     (\<forall>(f, st) \<in> set (preprocess_start s).
        st \<le> clk (clock_reads s) \<and> (\<forall>e. preprocess_end s f = Some e \<longrightarrow> st \<le> e))"

text \<open>The entries of \<open>preprocess_start\<close> that the emitter does not skip.\<close>

definition emitted_files :: "tracker \<Rightarrow> (string \<times> int) list" where
  "emitted_files s = filter (\<lambda>(f, st). f \<noteq> CIRCULAR_POISON_VALUE) (preprocess_start s)"

text \<open>
  Recorded starts and ends are kept from one state to a later one.
\<close>

definition records_kept :: "tracker \<Rightarrow> tracker \<Rightarrow> bool" where
  "records_kept s t \<longleftrightarrow>
     (\<forall>f st. map_of (preprocess_start s) f = Some st \<longrightarrow> map_of (preprocess_start t) f = Some st) \<and>
     (\<forall>f en. preprocess_end s f = Some en \<longrightarrow> preprocess_end t f = Some en)"

text \<open>
  The event that the emitter produces for an entry of \<open>preprocess_start\<close>: the file has a
  recorded end, and the event spans from the entry's start to that end.
\<close>

definition event_of_entry :: "tracker \<Rightarrow> string \<times> int \<Rightarrow> TraceEvent \<Rightarrow> bool" where
  "event_of_entry s entry e \<longleftrightarrow>
     (\<exists>en. preprocess_end s (fst entry) = Some en \<and>
           e = \<lparr>ev_name = normalized_file_name s (fst entry), ev_category = PREPROCESS,
                ev_ts = \<lparr>span_start = snd entry, span_end = en\<rparr>, ev_args = (False, [])\<rparr>)"

text \<open>
  The spans held by the function, scope and pass trackers and by the trace buffer in
  every reachable state, for an advancing clock: every recorded span is in order, every
  scope and the open pass start no later than the next reading, and the cursor is not
  negative and lies at least 3 ns before the next reading.
\<close>

definition spans_inv :: "clock \<Rightarrow> tracker \<Rightarrow> bool" where
  "spans_inv clk s \<longleftrightarrow>
     (\<forall>e \<in> set (function_events s). span_ok (fe_ts e)) \<and>
     (\<forall>e \<in> set (scope_events s). span_ok (se_ts e) \<and> span_start (se_ts e) \<le> clk (clock_reads s)) \<and>
     (\<forall>e \<in> set (pass_events s). span_ok (ope_ts e)) \<and>
     span_start (ope_ts (last_pass s)) \<le> clk (clock_reads s) \<and>
     0 \<le> last_function_parsed_ts s \<and>
     last_function_parsed_ts s + 3 \<le> clk (clock_reads s) \<and>
     (\<forall>e \<in> set (trace_buffer s). span_ok (ev_ts e))"

text \<open>
  The spans held by the pass tracker in every reachable state, for a strictly increasing
  clock: every pending span is in order, and an open pass starts no later than the next
  reading.
\<close>

definition pass_spans_inv :: "clock \<Rightarrow> tracker \<Rightarrow> bool" where
  "pass_spans_inv clk s \<longleftrightarrow>
     (\<forall>e \<in> set (pass_events s). span_ok (ope_ts e)) \<and>
     (ope_pass (last_pass s) \<noteq> None \<longrightarrow> span_start (ope_ts (last_pass s)) \<le> clk (clock_reads s))"

text \<open>
  The path normalizer only grows: names stay in the two sets, and a file that is
  registered keeps its directory and its normalized name.
\<close>

definition paths_extend :: "tracker \<Rightarrow> tracker \<Rightarrow> bool" where
  "paths_extend s t \<longleftrightarrow>
     conflicted_files s \<subseteq> conflicted_files t \<and>
     normalized_files s \<subseteq> normalized_files t \<and>
     (\<forall>f \<in> dom (file_to_include_directory s).
        file_to_include_directory t f = file_to_include_directory s f \<and>
        normalized_files_map t f = normalized_files_map s f)"

text \<open>Every pass on the pending list has a pass behind it.\<close>

definition pending_passes_inv :: "tracker \<Rightarrow> bool" where
  "pending_passes_inv s \<longleftrightarrow> (\<forall>e \<in> set (pass_events s). ope_pass e \<noteq> None)"

text \<open>
  A clock whose first reading is at least 3 and which advances by at least 6 ns from
  one reading to the next.
\<close>

definition advancing :: "clock \<Rightarrow> bool" where
  "advancing clk \<longleftrightarrow> 3 \<le> clk 0 \<and> (\<forall>n. clk n + 6 \<le> clk (Suc n))"

text \<open>
  The first \<open>n\<close> readings of the clock are timestamps on which the additions of the
  source do not overflow: nanoseconds since the start, at least 6 below the largest
  \<open>int64_t\<close> (the source adds 3 to a reading in \<open>end_preprocess_file\<close> and 3 more in
  \<open>end_parse_function\<close>). The cursor of a state is in range when adding 3 to it does not
  overflow either.
\<close>

definition int64_readings :: "clock \<Rightarrow> nat \<Rightarrow> bool" where
  "int64_readings clk n \<longleftrightarrow> (\<forall>i<n. 0 \<le> clk i \<and> clk i < 2 ^ 63 - 6)"

definition cursor_in_range :: "tracker \<Rightarrow> bool" where
  "cursor_in_range s \<longleftrightarrow>
     0 \<le> last_function_parsed_ts s \<and> last_function_parsed_ts s < 2 ^ 63 - 3"

section \<open>Running calls: invariants\<close>

lemma run_append:
  "run clk (cs @ ds) s = (case run clk cs s of Inl e \<Rightarrow> Inl e | Inr s1 \<Rightarrow> run clk ds s1)"
  by (induction cs arbitrary: s) (auto split: sum.splits)

lemma run_invariant:
  assumes "run clk cs s = Inr s'" and "P s"
    and "\<And>c t t'. P t \<Longrightarrow> step clk c t = Inr t' \<Longrightarrow> P t'"
  shows "P s'"
  using assms(1,2)
proof (induction cs arbitrary: s)
  case Nil
  then show ?case by simp
next
  case (Cons c cs)
  then show ?case
    using assms(3) by (auto split: sum.splits)
qed

section \<open>The preprocessing stack: one call at a time\<close>

lemma end_preprocess_file_empty:
  "preprocessing_stack s = [] \<Longrightarrow> end_preprocess_file clk s = Inl Undefined_Behaviour"
  by (simp add: end_preprocess_file_def ns_from_start_def)

lemma end_preprocess_file_nonempty:
  "preprocessing_stack s = f # below \<Longrightarrow>
   end_preprocess_file clk s =
     Inr (s\<lparr>clock_reads := Suc (clock_reads s),
             preprocess_end := (if preprocess_end s f = None
                                then (preprocess_end s)(f \<mapsto> clk (clock_reads s))
                                else preprocess_end s),
             preprocessing_stack := below,
             last_function_parsed_ts := int64 (clk (clock_reads s) + 3)\<rparr>)"
  by (simp add: end_preprocess_file_def ns_from_start_def)

lemma finish_preprocessing_stage_empty:
  "preprocessing_stack s = [] \<Longrightarrow> finish_preprocessing_stage clk s = Inr s"
  by (simp add: finish_preprocessing_stage.simps)

lemma finish_preprocessing_stage_nonempty:
  "preprocessing_stack s = f # below \<Longrightarrow>
   finish_preprocessing_stage clk s =
     finish_preprocessing_stage clk
       (s\<lparr>clock_reads := Suc (Suc (clock_reads s)),
          preprocess_end := (if preprocess_end s f = None
                             then (preprocess_end s)(f \<mapsto> clk (clock_reads s))
                             else preprocess_end s),
          preprocessing_stack := below,
          last_function_parsed_ts := clk (Suc (clock_reads s))\<rparr>)"
  by (subst finish_preprocessing_stage.simps)
     (auto simp: end_preprocess_file_nonempty ns_from_start_def
           intro!: arg_cong[where f = "finish_preprocessing_stage clk"])

lemma finish_preprocessing_stage_invariant:
  assumes "P s"
    and "\<And>t f below. P t \<Longrightarrow> preprocessing_stack t = f # below \<Longrightarrow>
          P (t\<lparr>clock_reads := Suc (Suc (clock_reads t)),
               preprocess_end := (if preprocess_end t f = None
                                  then (preprocess_end t)(f \<mapsto> clk (clock_reads t))
                                  else preprocess_end t),
               preprocessing_stack := below,
               last_function_parsed_ts := clk (Suc (clock_reads t))\<rparr>)"
  shows "\<exists>s'. finish_preprocessing_stage clk s = Inr s' \<and> P s' \<and> preprocessing_stack s' = []"
  using assms(1)
proof (induction "preprocessing_stack s" arbitrary: s)
  case Nil
  then show ?case by (simp add: finish_preprocessing_stage_empty)
next
  case (Cons f below)
  from Cons.hyps(2) have stack: "preprocessing_stack s = f # below" by simp
  let ?t = "s\<lparr>clock_reads := Suc (Suc (clock_reads s)),
               preprocess_end := (if preprocess_end s f = None
                                  then (preprocess_end s)(f \<mapsto> clk (clock_reads s))
                                  else preprocess_end s),
               preprocessing_stack := below,
               last_function_parsed_ts := clk (Suc (clock_reads s))\<rparr>"
  have "P ?t" using assms(2)[OF Cons.prems stack] .
  moreover have "below = preprocessing_stack ?t" by simp
  ultimately have "\<exists>s'. finish_preprocessing_stage clk ?t = Inr s' \<and> P s' \<and> preprocessing_stack s' = []"
    using Cons.hyps(1) by blast
  then show ?case
    by (simp add: finish_preprocessing_stage_nonempty[OF stack])
qed

section \<open>Timestamps within the range of int64_t\<close>

lemma int64_id: "- (2 ^ 63) \<le> x \<Longrightarrow> x < 2 ^ 63 \<Longrightarrow> int64 x = x"
  by (simp add: int64_def)

text \<open>
  Beyond the range the sum wraps: one more than the largest \<open>int64_t\<close> is the smallest,
  and a pass that is entered at the largest reading is opened at the smallest timestamp.
\<close>

lemma int64_wraps: "int64 (2 ^ 63 - 1 + 1) = - (2 ^ 63)"
  by (simp add: int64_def)

lemma start_opt_pass_wraps:
  "clk (clock_reads s) = 2 ^ 63 - 1 \<Longrightarrow>
   ope_ts (last_pass (start_opt_pass clk pass s)) =
     \<lparr>span_start = - (2 ^ 63), span_end = 2 ^ 63 - 1\<rparr>"
  by (simp add: start_opt_pass_def ns_from_start_def int64_def)

lemma int64_readings_le: "int64_readings clk n \<Longrightarrow> m \<le> n \<Longrightarrow> int64_readings clk m"
  by (simp add: int64_readings_def)

lemma int64_reading:
  assumes "int64_readings clk n" "i < n" "0 \<le> k" "k \<le> 6"
  shows "int64 (clk i + k) = clk i + k"
proof -
  from assms(1,2) have "0 \<le> clk i" "clk i < 2 ^ 63 - 6"
    by (simp_all add: int64_readings_def)
  with assms(3,4) show ?thesis
    by (intro int64_id) simp_all
qed

lemma int64_cursor:
  assumes "cursor_in_range s"
  shows "int64 (last_function_parsed_ts s + 3) = last_function_parsed_ts s + 3"
    and "int64 (last_function_parsed_ts s + 2) = last_function_parsed_ts s + 2"
  using assms by (simp_all add: cursor_in_range_def int64_id)

lemma span_end_update:
  "ts\<lparr>span_end := x\<rparr> = \<lparr>span_start = span_start ts, span_end = x\<rparr>"
  by (cases ts) simp

section \<open>The function tracker: what one call and a run of calls record\<close>

lemma end_parse_function_function_events:
  "function_events (end_parse_function clk info s) =
     function_events s @ [\<lparr>fe_name = ff_name info, fe_file_name = ff_file_name info,
        fe_ts = \<lparr>span_start = int64 (last_function_parsed_ts s + 3), span_end = clk (clock_reads s)\<rparr>\<rparr>]"
  by (simp add: end_parse_function_def ns_from_start_def Let_def split: option.splits)

lemma end_parse_function_cursor:
  "last_function_parsed_ts (end_parse_function clk info s) = clk (clock_reads s)"
  "clock_reads (end_parse_function clk info s) = Suc (clock_reads s)"
  by (simp_all add: end_parse_function_def ns_from_start_def Let_def split: option.splits)

lemma end_parse_function_scope_events:
  "scope_events (end_parse_function clk info s) =
     (case ff_scope_name info of
        None \<Rightarrow> scope_events s
      | Some nm \<Rightarrow>
          if scope_events s \<noteq> [] \<and> did_last_function_have_scope s \<and> se_name (last (scope_events s)) = nm
          then butlast (scope_events s) @
                 [(last (scope_events s))\<lparr>se_ts := (se_ts (last (scope_events s)))
                     \<lparr>span_end := int64 (clk (clock_reads s) + 1)\<rparr>\<rparr>]
          else scope_events s @
                 [\<lparr>se_name = nm, se_type = ff_scope_type info,
                   se_ts = \<lparr>span_start = int64 (int64 (last_function_parsed_ts s + 3) - 1),
                            span_end = int64 (clk (clock_reads s) + 1)\<rparr>\<rparr>])"
  "did_last_function_have_scope (end_parse_function clk info s) = (ff_scope_name info \<noteq> None)"
  by (simp_all add: end_parse_function_def ns_from_start_def Let_def split: option.splits)

lemma end_parse_function_frame:
  "preprocess_start (end_parse_function clk info s) = preprocess_start s"
  "preprocess_end (end_parse_function clk info s) = preprocess_end s"
  "preprocessing_stack (end_parse_function clk info s) = preprocessing_stack s"
  "last_pass (end_parse_function clk info s) = last_pass s"
  "pass_events (end_parse_function clk info s) = pass_events s"
  "file_to_include_directory (end_parse_function clk info s) = file_to_include_directory s"
  "normalized_files_map (end_parse_function clk info s) = normalized_files_map s"
  "normalized_files (end_parse_function clk info s) = normalized_files s"
  "conflicted_files (end_parse_function clk info s) = conflicted_files s"
  "trace_buffer (end_parse_function clk info s) = trace_buffer s"
  by (simp_all add: end_parse_function_def ns_from_start_def Let_def split: option.splits)

text \<open>One call on timestamps in range: no addition wraps.\<close>

lemma end_parse_function_in_range:
  assumes "int64_readings clk (Suc (clock_reads s))" "cursor_in_range s"
  shows "function_events (end_parse_function clk info s) =
     function_events s @ [\<lparr>fe_name = ff_name info, fe_file_name = ff_file_name info,
        fe_ts = \<lparr>span_start = last_function_parsed_ts s + 3, span_end = clk (clock_reads s)\<rparr>\<rparr>]"
    and "scope_events (end_parse_function clk info s) =
     (case ff_scope_name info of
        None \<Rightarrow> scope_events s
      | Some nm \<Rightarrow>
          if scope_events s \<noteq> [] \<and> did_last_function_have_scope s \<and> se_name (last (scope_events s)) = nm
          then butlast (scope_events s) @
                 [(last (scope_events s))\<lparr>se_ts := (se_ts (last (scope_events s)))
                     \<lparr>span_end := clk (clock_reads s) + 1\<rparr>\<rparr>]
          else scope_events s @
                 [\<lparr>se_name = nm, se_type = ff_scope_type info,
                   se_ts = \<lparr>span_start = last_function_parsed_ts s + 3 - 1,
                            span_end = clk (clock_reads s) + 1\<rparr>\<rparr>])"
    and "cursor_in_range (end_parse_function clk info s)"
proof -
  have now: "0 \<le> clk (clock_reads s)" "clk (clock_reads s) < 2 ^ 63 - 6"
    using assms(1) by (simp_all add: int64_readings_def)
  have r: "int64 (clk (clock_reads s) + 1) = clk (clock_reads s) + 1"
    using int64_reading[OF assms(1), of "clock_reads s" 1] by simp
  note c = int64_cursor[OF assms(2)]
  show "function_events (end_parse_function clk info s) =
     function_events s @ [\<lparr>fe_name = ff_name info, fe_file_name = ff_file_name info,
        fe_ts = \<lparr>span_start = last_function_parsed_ts s + 3, span_end = clk (clock_reads s)\<rparr>\<rparr>]"
    by (simp add: end_parse_function_function_events c)
  show "scope_events (end_parse_function clk info s) =
     (case ff_scope_name info of
        None \<Rightarrow> scope_events s
      | Some nm \<Rightarrow>
          if scope_events s \<noteq> [] \<and> did_last_function_have_scope s \<and> se_name (last (scope_events s)) = nm
          then butlast (scope_events s) @
                 [(last (scope_events s))\<lparr>se_ts := (se_ts (last (scope_events s)))
                     \<lparr>span_end := clk (clock_reads s) + 1\<rparr>\<rparr>]
          else scope_events s @
                 [\<lparr>se_name = nm, se_type = ff_scope_type info,
                   se_ts = \<lparr>span_start = last_function_parsed_ts s + 3 - 1,
                            span_end = clk (clock_reads s) + 1\<rparr>\<rparr>])"
    using assms(2)
    by (simp add: end_parse_function_scope_events c r int64_id cursor_in_range_def
          split: option.splits)
  show "cursor_in_range (end_parse_function clk info s)"
    using now by (simp add: cursor_in_range_def end_parse_function_cursor)
qed

lemma fold_end_parse_function:
  assumes "int64_readings clk (clock_reads s + length infos)" "cursor_in_range s"
  shows "clock_reads (fold (end_parse_function clk) infos s) = clock_reads s + length infos \<and>
   cursor_in_range (fold (end_parse_function clk) infos s) \<and>
   last_function_parsed_ts (fold (end_parse_function clk) infos s) =
     (if infos = [] then last_function_parsed_ts s else clk (clock_reads s + length infos - 1)) \<and>
   function_events (fold (end_parse_function clk) infos s) =
     function_events s @
       map (\<lambda>i. \<lparr>fe_name = ff_name (infos ! i), fe_file_name = ff_file_name (infos ! i),
                  fe_ts = \<lparr>span_start = (if i = 0 then last_function_parsed_ts s else clk (clock_reads s + i - 1)) + 3,
                            span_end = clk (clock_reads s + i)\<rparr>\<rparr>) [0..<length infos]"
  using assms(1)
proof (induction infos rule: rev_induct)
  case Nil
  show ?case using assms(2) by simp
next
  case (snoc x xs)
  let ?t = "fold (end_parse_function clk) xs s"
  from snoc.prems have "int64_readings clk (clock_reads s + length xs)"
    by (auto intro: int64_readings_le)
  note IH = snoc.IH[OF this]
  from IH snoc.prems have rng: "int64_readings clk (Suc (clock_reads ?t))" by simp
  from IH have cur: "cursor_in_range ?t" by simp
  note one = end_parse_function_in_range(1,3)[OF rng cur, of x]
  show ?case
    using IH one by (simp add: end_parse_function_cursor nth_append)
qed

lemma write_all_functions_buffer:
  "trace_buffer (write_all_functions s) = trace_buffer s @ map (function_trace_event s) (function_events s)"
proof -
  have "\<And>t. trace_buffer (fold (\<lambda>item. add_event (function_trace_event s item)) xs t) =
             trace_buffer t @ map (function_trace_event s) xs" for xs
    by (induction xs) (simp_all add: add_event_def)
  then show ?thesis by (simp add: write_all_functions_def)
qed

lemma write_all_scopes_buffer:
  "trace_buffer (write_all_scopes s) = trace_buffer s @ map scope_trace_event (scope_events s)"
proof -
  have "\<And>t. trace_buffer (fold (\<lambda>item. add_event (scope_trace_event item)) xs t) =
             trace_buffer t @ map scope_trace_event xs" for xs
    by (induction xs) (simp_all add: add_event_def)
  then show ?thesis by (simp add: write_all_scopes_def)
qed

text \<open>What the drain leaves in the cursor: the last reading that it took.\<close>

lemma finish_preprocessing_stage_cursor:
  assumes "preprocessing_stack s \<noteq> []"
  shows "\<exists>s1. finish_preprocessing_stage clk s = Inr s1 \<and>
           clock_reads s1 = clock_reads s + 2 * length (preprocessing_stack s) \<and>
           last_function_parsed_ts s1 = clk (clock_reads s1 - 1) \<and>
           function_events s1 = function_events s"
proof -
  let ?P = "\<lambda>t. function_events t = function_events s \<and>
      clock_reads t + 2 * length (preprocessing_stack t) =
        clock_reads s + 2 * length (preprocessing_stack s) \<and>
      (clock_reads t = clock_reads s \<or> last_function_parsed_ts t = clk (clock_reads t - 1))"
  have "\<exists>s1. finish_preprocessing_stage clk s = Inr s1 \<and> ?P s1 \<and> preprocessing_stack s1 = []"
  proof (rule finish_preprocessing_stage_invariant)
    show "?P s" by simp
  next
    fix t f below
    assume "?P t" "preprocessing_stack t = f # below"
    then show "?P (t\<lparr>clock_reads := Suc (Suc (clock_reads t)),
                 preprocess_end := (if preprocess_end t f = None
                                    then (preprocess_end t)(f \<mapsto> clk (clock_reads t))
                                    else preprocess_end t),
                 preprocessing_stack := below,
                 last_function_parsed_ts := clk (Suc (clock_reads t))\<rparr>)"
      by simp
  qed
  then obtain s1 where s1: "finish_preprocessing_stage clk s = Inr s1" "?P s1"
    "preprocessing_stack s1 = []" by blast
  from assms have "0 < length (preprocessing_stack s)" by simp
  with s1(2,3) have "clock_reads s1 = clock_reads s + 2 * length (preprocessing_stack s)"
    "clock_reads s1 \<noteq> clock_reads s" by simp_all
  with s1 show ?thesis by auto
qed

text \<open>
  Claim C2, as amended. Every \<open>end_parse_function\<close> call records exactly one function
  event, whose span starts 3 ns after the cursor \<open>last_function_parsed_ts\<close> and ends at
  the clock reading of the call, and \<open>write_all_functions\<close> emits one FUNCTION event per
  recorded function, with the recorded name and span and the display name of the file.
  The cursor is the end of the previous function event when \<open>end_parse_function\<close>
  updated it last, so in a run of consecutive calls every event starts exactly 3 ns
  after the end of the event before it. When \<open>end_preprocess_file\<close> updated it last, the
  cursor is 3 ns after the reading of that call, so the next function event starts 6 ns
  after the file was left; when the drain \<open>finish_preprocessing_stage\<close> updated it last,
  the cursor is the last reading of the drain. The starts and the ends of a run are
  strictly increasing when the clock is strictly increasing and the cursor lies before
  the first reading; nothing is promised for a clock that repeats a value. All readings
  that the calls take are timestamps in the range of \<open>int64_readings\<close>.
\<close>

theorem finish_function_spans:
  assumes "cursor_in_range s"
  shows
    "(int64_readings clk (clock_reads s + length infos) \<longrightarrow>
      (let s' = fold (end_parse_function clk) infos s;
           new = drop (length (function_events s)) (function_events s')
       in function_events s' = function_events s @ new \<and> length new = length infos \<and>
          (\<forall>i<length infos.
             fe_name (new ! i) = ff_name (infos ! i) \<and>
             fe_file_name (new ! i) = ff_file_name (infos ! i) \<and>
             fe_ts (new ! i) =
               \<lparr>span_start = (if i = 0 then last_function_parsed_ts s else clk (clock_reads s + i - 1)) + 3,
                span_end = clk (clock_reads s + i)\<rparr>) \<and>
          (\<forall>i. Suc i < length infos \<longrightarrow>
             span_start (fe_ts (new ! Suc i)) = span_end (fe_ts (new ! i)) + 3) \<and>
          (strict_mono clk \<and> last_function_parsed_ts s < clk (clock_reads s) \<longrightarrow>
             (\<forall>i j. i < j \<and> j < length infos \<longrightarrow>
                span_start (fe_ts (new ! i)) < span_start (fe_ts (new ! j)) \<and>
                span_end (fe_ts (new ! i)) < span_end (fe_ts (new ! j)))) \<and>
          trace_buffer (write_all_functions s') =
            trace_buffer s' @
              map (\<lambda>item. \<lparr>ev_name = fe_name item, ev_category = FUNCTION, ev_ts = fe_ts item,
                            ev_args = (True, [(''file'', normalized_file_name s' (fe_file_name item))])\<rparr>)
                  (function_events s'))) \<and>
     (int64_readings clk (Suc (clock_reads s)) \<longrightarrow>
      (\<forall>top_file below. preprocessing_stack s = top_file # below \<longrightarrow>
         (\<exists>s1. end_preprocess_file clk s = Inr s1 \<and>
            last_function_parsed_ts s1 = clk (clock_reads s) + 3 \<and>
            function_events (end_parse_function clk info s1) =
              function_events s @
                [\<lparr>fe_name = ff_name info, fe_file_name = ff_file_name info,
                  fe_ts = \<lparr>span_start = clk (clock_reads s) + 6,
                           span_end = clk (Suc (clock_reads s))\<rparr>\<rparr>]))) \<and>
     (int64_readings clk (clock_reads s + 2 * length (preprocessing_stack s)) \<longrightarrow>
      preprocessing_stack s \<noteq> [] \<longrightarrow>
         (\<exists>s1. finish_preprocessing_stage clk s = Inr s1 \<and>
            clock_reads s1 = clock_reads s + 2 * length (preprocessing_stack s) \<and>
            last_function_parsed_ts s1 = clk (clock_reads s1 - 1) \<and>
            function_events (end_parse_function clk info s1) =
              function_events s @
                [\<lparr>fe_name = ff_name info, fe_file_name = ff_file_name info,
                  fe_ts = \<lparr>span_start = clk (clock_reads s1 - 1) + 3,
                           span_end = clk (clock_reads s1)\<rparr>\<rparr>]))"
proof (intro conjI impI allI)
  assume rng: "int64_readings clk (clock_reads s + length infos)"
  have later: "a < clk (n + j - Suc 0)" if "strict_mono clk" "a < clk n" "0 < j" for a n j
  proof -
    have "clk n \<le> clk (n + j - Suc 0)"
      using that(1,3) by (simp add: strict_mono_less_eq)
    with that(2) show ?thesis by simp
  qed
  have ev: "function_trace_event t =
      (\<lambda>item. \<lparr>ev_name = fe_name item, ev_category = FUNCTION, ev_ts = fe_ts item,
                ev_args = (True, [(''file'', normalized_file_name t (fe_file_name item))])\<rparr>)" for t
    by (simp add: fun_eq_iff function_trace_event_def)
  show "let s' = fold (end_parse_function clk) infos s;
           new = drop (length (function_events s)) (function_events s')
       in function_events s' = function_events s @ new \<and> length new = length infos \<and>
          (\<forall>i<length infos.
             fe_name (new ! i) = ff_name (infos ! i) \<and>
             fe_file_name (new ! i) = ff_file_name (infos ! i) \<and>
             fe_ts (new ! i) =
               \<lparr>span_start = (if i = 0 then last_function_parsed_ts s else clk (clock_reads s + i - 1)) + 3,
                span_end = clk (clock_reads s + i)\<rparr>) \<and>
          (\<forall>i. Suc i < length infos \<longrightarrow>
             span_start (fe_ts (new ! Suc i)) = span_end (fe_ts (new ! i)) + 3) \<and>
          (strict_mono clk \<and> last_function_parsed_ts s < clk (clock_reads s) \<longrightarrow>
             (\<forall>i j. i < j \<and> j < length infos \<longrightarrow>
                span_start (fe_ts (new ! i)) < span_start (fe_ts (new ! j)) \<and>
                span_end (fe_ts (new ! i)) < span_end (fe_ts (new ! j)))) \<and>
          trace_buffer (write_all_functions s') =
            trace_buffer s' @
              map (\<lambda>item. \<lparr>ev_name = fe_name item, ev_category = FUNCTION, ev_ts = fe_ts item,
                            ev_args = (True, [(''file'', normalized_file_name s' (fe_file_name item))])\<rparr>)
                  (function_events s')"
    unfolding Let_def write_all_functions_buffer ev
    by (auto simp: fold_end_parse_function[OF rng assms] later strict_mono_less)
next
  fix top_file below
  assume rng: "int64_readings clk (Suc (clock_reads s))"
    and stack: "preprocessing_stack s = top_file # below"
  have w3: "int64 (clk (clock_reads s) + 3) = clk (clock_reads s) + 3"
    using int64_reading[OF rng, of "clock_reads s" 3] by simp
  have w6: "int64 (6 + clk (clock_reads s)) = clk (clock_reads s) + 6"
    using int64_reading[OF rng, of "clock_reads s" 6] by (simp add: add.commute)
  show "\<exists>s1. end_preprocess_file clk s = Inr s1 \<and>
            last_function_parsed_ts s1 = clk (clock_reads s) + 3 \<and>
            function_events (end_parse_function clk info s1) =
              function_events s @
                [\<lparr>fe_name = ff_name info, fe_file_name = ff_file_name info,
                  fe_ts = \<lparr>span_start = clk (clock_reads s) + 6,
                           span_end = clk (Suc (clock_reads s))\<rparr>\<rparr>]"
    by (simp add: end_preprocess_file_nonempty[OF stack] end_parse_function_function_events w3 w6)
next
  assume rng: "int64_readings clk (clock_reads s + 2 * length (preprocessing_stack s))"
    and stack: "preprocessing_stack s \<noteq> []"
  from finish_preprocessing_stage_cursor[OF stack, of clk] obtain s1 where
    s1: "finish_preprocessing_stage clk s = Inr s1"
      "clock_reads s1 = clock_reads s + 2 * length (preprocessing_stack s)"
      "last_function_parsed_ts s1 = clk (clock_reads s1 - 1)"
      "function_events s1 = function_events s"
    by blast
  from stack have "clock_reads s1 - 1 < clock_reads s + 2 * length (preprocessing_stack s)"
    by (simp add: s1(2))
  from int64_reading[OF rng this, of 3]
  have w3: "int64 (clk (clock_reads s1 - 1) + 3) = clk (clock_reads s1 - 1) + 3" by simp
  have "function_events (end_parse_function clk info s1) =
              function_events s @
                [\<lparr>fe_name = ff_name info, fe_file_name = ff_file_name info,
                  fe_ts = \<lparr>span_start = clk (clock_reads s1 - 1) + 3,
                           span_end = clk (clock_reads s1)\<rparr>\<rparr>]"
    by (simp only: end_parse_function_function_events s1(3,4) w3)
  with s1 show "\<exists>s1. finish_preprocessing_stage clk s = Inr s1 \<and>
            clock_reads s1 = clock_reads s + 2 * length (preprocessing_stack s) \<and>
            last_function_parsed_ts s1 = clk (clock_reads s1 - 1) \<and>
            function_events (end_parse_function clk info s1) =
              function_events s @
                [\<lparr>fe_name = ff_name info, fe_file_name = ff_file_name info,
                  fe_ts = \<lparr>span_start = clk (clock_reads s1 - 1) + 3,
                           span_end = clk (clock_reads s1)\<rparr>\<rparr>]"
    by blast
qed


theorem finish_function_spans_witness:
  "cursor_in_range initial_tracker \<and> int64_readings ticking_clock 3 \<and> strict_mono ticking_clock \<and>
   last_function_parsed_ts initial_tracker < ticking_clock (clock_reads initial_tracker) \<and>
   (let f = \<lparr>ff_name = ''f'', ff_file_name = ''a.cc'', ff_scope_name = None, ff_scope_type = UNKNOWN\<rparr>;
        g = \<lparr>ff_name = ''g'', ff_file_name = ''b.cc'', ff_scope_name = None, ff_scope_type = UNKNOWN\<rparr>;
        s' = fold (end_parse_function ticking_clock) [f, g] initial_tracker;
        opened = initial_tracker\<lparr>preprocess_start := [(''a.cc'', 10)],
                   preprocessing_stack := [''a.cc''], clock_reads := 1\<rparr>
    in function_events s' =
         [\<lparr>fe_name = ''f'', fe_file_name = ''a.cc'', fe_ts = \<lparr>span_start = 3, span_end = 10\<rparr>\<rparr>,
          \<lparr>fe_name = ''g'', fe_file_name = ''b.cc'', fe_ts = \<lparr>span_start = 13, span_end = 20\<rparr>\<rparr>] \<and>
       trace_buffer (write_all_functions s') =
         [\<lparr>ev_name = ''f'', ev_category = FUNCTION, ev_ts = \<lparr>span_start = 3, span_end = 10\<rparr>,
           ev_args = (True, [(''file'', ''a.cc'')])\<rparr>,
          \<lparr>ev_name = ''g'', ev_category = FUNCTION, ev_ts = \<lparr>span_start = 13, span_end = 20\<rparr>,
           ev_args = (True, [(''file'', ''b.cc'')])\<rparr>] \<and>
       (\<exists>s1. end_preprocess_file ticking_clock opened = Inr s1 \<and>
             last_function_parsed_ts s1 = 23 \<and>
             function_events (end_parse_function ticking_clock f s1) =
               [\<lparr>fe_name = ''f'', fe_file_name = ''a.cc'',
                 fe_ts = \<lparr>span_start = 26, span_end = 30\<rparr>\<rparr>]) \<and>
       (\<exists>s1. finish_preprocessing_stage ticking_clock opened = Inr s1 \<and>
             clock_reads s1 = 3 \<and> last_function_parsed_ts s1 = 30 \<and>
             function_events (end_parse_function ticking_clock f s1) =
               [\<lparr>fe_name = ''f'', fe_file_name = ''a.cc'',
                 fe_ts = \<lparr>span_start = 33, span_end = 40\<rparr>\<rparr>]))"
proof -
  define f where "f = \<lparr>ff_name = ''f'', ff_file_name = ''a.cc'', ff_scope_name = None, ff_scope_type = UNKNOWN\<rparr>"
  define g where "g = \<lparr>ff_name = ''g'', ff_file_name = ''b.cc'', ff_scope_name = None, ff_scope_type = UNKNOWN\<rparr>"
  define s' where "s' = fold (end_parse_function ticking_clock) [f, g] initial_tracker"
  define opened where "opened = initial_tracker\<lparr>preprocess_start := [(''a.cc'', 10)],
                   preprocessing_stack := [''a.cc''], clock_reads := 1\<rparr>"
  have rng: "int64_readings ticking_clock n" if "n \<le> 3" for n
    using that by (auto simp: int64_readings_def ticking_clock_def)
  have mono: "strict_mono ticking_clock"
    by (simp add: strict_mono_def ticking_clock_def)
  have c0: "cursor_in_range initial_tracker" "cursor_in_range opened"
    by (simp_all add: cursor_in_range_def opened_def initial_tracker_def)
  have cursor: "last_function_parsed_ts initial_tracker < ticking_clock (clock_reads initial_tracker)"
    by (simp add: initial_tracker_def ticking_clock_def)
  have init: "clock_reads initial_tracker = 0" "function_events initial_tracker = []"
    "last_function_parsed_ts initial_tracker = 0" "normalized_files_map initial_tracker = Map.empty"
    by (simp_all add: initial_tracker_def)
  have o: "clock_reads opened = 1" "function_events opened = []"
    "preprocessing_stack opened = [''a.cc'']"
    by (simp_all add: opened_def initial_tracker_def)
  have fg: "ff_name f = ''f''" "ff_file_name f = ''a.cc''" "ff_name g = ''g''" "ff_file_name g = ''b.cc''"
    by (simp_all add: f_def g_def)
  note run = finish_function_spans[OF c0(1), of ticking_clock "[f, g]" f,
      THEN conjunct1, THEN mp, OF rng, unfolded Let_def, folded s'_def]
  have two: "clock_reads initial_tracker + length [f, g] \<le> 3" by (simp add: init)
  note run' = run[OF two]
  have len: "length (function_events s') = 2"
    using run' by (simp add: init)
  have evs: "function_events s' =
         [\<lparr>fe_name = ''f'', fe_file_name = ''a.cc'', fe_ts = \<lparr>span_start = 3, span_end = 10\<rparr>\<rparr>,
          \<lparr>fe_name = ''g'', fe_file_name = ''b.cc'', fe_ts = \<lparr>span_start = 13, span_end = 20\<rparr>\<rparr>]"
  proof (rule nth_equalityI)
    show "length (function_events s') = length
         [\<lparr>fe_name = ''f'', fe_file_name = ''a.cc'', fe_ts = \<lparr>span_start = 3, span_end = 10\<rparr>\<rparr>,
          \<lparr>fe_name = ''g'', fe_file_name = ''b.cc'', fe_ts = \<lparr>span_start = 13, span_end = (20::int)\<rparr>\<rparr>]"
      using len by simp
  next
    fix i assume "i < length (function_events s')"
    with len have "i = 0 \<or> i = 1" by auto
    moreover have "fe_name (function_events s' ! i) = ff_name ([f, g] ! i) \<and>
        fe_file_name (function_events s' ! i) = ff_file_name ([f, g] ! i) \<and>
        fe_ts (function_events s' ! i) =
          \<lparr>span_start = (if i = 0 then last_function_parsed_ts initial_tracker
                          else ticking_clock (clock_reads initial_tracker + i - 1)) + 3,
           span_end = ticking_clock (clock_reads initial_tracker + i)\<rparr>" if "i < 2" for i
      using run' that by (simp add: init)
    ultimately show "function_events s' ! i =
         [\<lparr>fe_name = ''f'', fe_file_name = ''a.cc'', fe_ts = \<lparr>span_start = 3, span_end = 10\<rparr>\<rparr>,
          \<lparr>fe_name = ''g'', fe_file_name = ''b.cc'', fe_ts = \<lparr>span_start = 13, span_end = 20\<rparr>\<rparr>] ! i"
      by (auto simp: init fg ticking_clock_def intro!: FunctionEvent.equality)
  qed
  have names: "normalized_file_name s' x = x" for x
    by (simp add: normalized_file_name_def s'_def end_parse_function_frame init)
  have tb: "trace_buffer s' = []"
    by (simp add: s'_def end_parse_function_frame initial_tracker_def)
  have emitted: "trace_buffer (write_all_functions s') =
         [\<lparr>ev_name = ''f'', ev_category = FUNCTION, ev_ts = \<lparr>span_start = 3, span_end = 10\<rparr>,
           ev_args = (True, [(''file'', ''a.cc'')])\<rparr>,
          \<lparr>ev_name = ''g'', ev_category = FUNCTION, ev_ts = \<lparr>span_start = 13, span_end = 20\<rparr>,
           ev_args = (True, [(''file'', ''b.cc'')])\<rparr>]"
    using run' by (simp add: evs names tb)
  note leave = finish_function_spans[OF c0(2), of ticking_clock "[]" f,
      THEN conjunct2, THEN conjunct1, THEN mp, OF rng, rule_format, OF _ o(3)]
  have left: "\<exists>s1. end_preprocess_file ticking_clock opened = Inr s1 \<and>
             last_function_parsed_ts s1 = 23 \<and>
             function_events (end_parse_function ticking_clock f s1) =
               [\<lparr>fe_name = ''f'', fe_file_name = ''a.cc'',
                 fe_ts = \<lparr>span_start = 26, span_end = 30\<rparr>\<rparr>]"
    using leave by (simp add: o fg ticking_clock_def)
  note drain = finish_function_spans[OF c0(2), of ticking_clock "[]" f,
      THEN conjunct2, THEN conjunct2, THEN mp, OF rng, THEN mp]
  have "\<exists>s1. finish_preprocessing_stage ticking_clock opened = Inr s1 \<and>
            clock_reads s1 = clock_reads opened + 2 * length (preprocessing_stack opened) \<and>
            last_function_parsed_ts s1 = ticking_clock (clock_reads s1 - 1) \<and>
            function_events (end_parse_function ticking_clock f s1) =
              function_events opened @
                [\<lparr>fe_name = ff_name f, fe_file_name = ff_file_name f,
                  fe_ts = \<lparr>span_start = ticking_clock (clock_reads s1 - 1) + 3,
                           span_end = ticking_clock (clock_reads s1)\<rparr>\<rparr>]"
    by (rule drain) (simp_all add: o)
  then obtain s1 where s1: "finish_preprocessing_stage ticking_clock opened = Inr s1"
      "clock_reads s1 = clock_reads opened + 2 * length (preprocessing_stack opened)"
      "last_function_parsed_ts s1 = ticking_clock (clock_reads s1 - 1)"
      "function_events (end_parse_function ticking_clock f s1) =
              function_events opened @
                [\<lparr>fe_name = ff_name f, fe_file_name = ff_file_name f,
                  fe_ts = \<lparr>span_start = ticking_clock (clock_reads s1 - 1) + 3,
                           span_end = ticking_clock (clock_reads s1)\<rparr>\<rparr>]"
    by blast
  have reads: "clock_reads s1 = 3" using s1(2) by (simp add: o)
  have drained: "\<exists>s1. finish_preprocessing_stage ticking_clock opened = Inr s1 \<and>
             clock_reads s1 = 3 \<and> last_function_parsed_ts s1 = 30 \<and>
             function_events (end_parse_function ticking_clock f s1) =
               [\<lparr>fe_name = ''f'', fe_file_name = ''a.cc'',
                 fe_ts = \<lparr>span_start = 33, span_end = 40\<rparr>\<rparr>]"
    using s1(1,3,4) reads by (intro exI[of _ s1]) (simp add: o fg ticking_clock_def)
  have "function_events s' =
         [\<lparr>fe_name = ''f'', fe_file_name = ''a.cc'', fe_ts = \<lparr>span_start = 3, span_end = 10\<rparr>\<rparr>,
          \<lparr>fe_name = ''g'', fe_file_name = ''b.cc'', fe_ts = \<lparr>span_start = 13, span_end = 20\<rparr>\<rparr>] \<and>
       trace_buffer (write_all_functions s') =
         [\<lparr>ev_name = ''f'', ev_category = FUNCTION, ev_ts = \<lparr>span_start = 3, span_end = 10\<rparr>,
           ev_args = (True, [(''file'', ''a.cc'')])\<rparr>,
          \<lparr>ev_name = ''g'', ev_category = FUNCTION, ev_ts = \<lparr>span_start = 13, span_end = 20\<rparr>,
           ev_args = (True, [(''file'', ''b.cc'')])\<rparr>] \<and>
       (\<exists>s1. end_preprocess_file ticking_clock opened = Inr s1 \<and>
             last_function_parsed_ts s1 = 23 \<and>
             function_events (end_parse_function ticking_clock f s1) =
               [\<lparr>fe_name = ''f'', fe_file_name = ''a.cc'',
                 fe_ts = \<lparr>span_start = 26, span_end = 30\<rparr>\<rparr>]) \<and>
       (\<exists>s1. finish_preprocessing_stage ticking_clock opened = Inr s1 \<and>
             clock_reads s1 = 3 \<and> last_function_parsed_ts s1 = 30 \<and>
             function_events (end_parse_function ticking_clock f s1) =
               [\<lparr>fe_name = ''f'', fe_file_name = ''a.cc'',
                 fe_ts = \<lparr>span_start = 33, span_end = 40\<rparr>\<rparr>])"
    using evs emitted left drained by (intro conjI)
  then have "let f = \<lparr>ff_name = ''f'', ff_file_name = ''a.cc'', ff_scope_name = None, ff_scope_type = UNKNOWN\<rparr>;
        g = \<lparr>ff_name = ''g'', ff_file_name = ''b.cc'', ff_scope_name = None, ff_scope_type = UNKNOWN\<rparr>;
        s' = fold (end_parse_function ticking_clock) [f, g] initial_tracker;
        opened = initial_tracker\<lparr>preprocess_start := [(''a.cc'', 10)],
                   preprocessing_stack := [''a.cc''], clock_reads := 1\<rparr>
    in function_events s' =
         [\<lparr>fe_name = ''f'', fe_file_name = ''a.cc'', fe_ts = \<lparr>span_start = 3, span_end = 10\<rparr>\<rparr>,
          \<lparr>fe_name = ''g'', fe_file_name = ''b.cc'', fe_ts = \<lparr>span_start = 13, span_end = 20\<rparr>\<rparr>] \<and>
       trace_buffer (write_all_functions s') =
         [\<lparr>ev_name = ''f'', ev_category = FUNCTION, ev_ts = \<lparr>span_start = 3, span_end = 10\<rparr>,
           ev_args = (True, [(''file'', ''a.cc'')])\<rparr>,
          \<lparr>ev_name = ''g'', ev_category = FUNCTION, ev_ts = \<lparr>span_start = 13, span_end = 20\<rparr>,
           ev_args = (True, [(''file'', ''b.cc'')])\<rparr>] \<and>
       (\<exists>s1. end_preprocess_file ticking_clock opened = Inr s1 \<and>
             last_function_parsed_ts s1 = 23 \<and>
             function_events (end_parse_function ticking_clock f s1) =
               [\<lparr>fe_name = ''f'', fe_file_name = ''a.cc'',
                 fe_ts = \<lparr>span_start = 26, span_end = 30\<rparr>\<rparr>]) \<and>
       (\<exists>s1. finish_preprocessing_stage ticking_clock opened = Inr s1 \<and>
             clock_reads s1 = 3 \<and> last_function_parsed_ts s1 = 30 \<and>
             function_events (end_parse_function ticking_clock f s1) =
               [\<lparr>fe_name = ''f'', fe_file_name = ''a.cc'',
                 fe_ts = \<lparr>span_start = 33, span_end = 40\<rparr>\<rparr>])"
    by (simp only: Let_def f_def g_def s'_def opened_def)
  with c0(1) rng[of 3] mono cursor show ?thesis
    by (intro conjI) simp_all
qed

text \<open>
  Claim C2 as stated fails in two ways. With a clock that returns the same value twice,
  both events of two consecutive calls end at 100 (and the second one starts at 103,
  after its own end). After a file that is entered at 10 and left at 20, the cursor is
  23 and the next function event starts at 26: 6 ns, not 3 ns, after the preprocessing
  boundary.
\<close>

theorem function_spans_collide_or_start_late:
  "map fe_ts (function_events (fold (end_parse_function frozen_clock)
          [\<lparr>ff_name = ''f'', ff_file_name = ''a.cc'', ff_scope_name = None, ff_scope_type = UNKNOWN\<rparr>,
           \<lparr>ff_name = ''g'', ff_file_name = ''a.cc'', ff_scope_name = None, ff_scope_type = UNKNOWN\<rparr>]
          initial_tracker)) =
     [\<lparr>span_start = 3, span_end = 100\<rparr>, \<lparr>span_start = 103, span_end = 100\<rparr>] \<and>
   \<not> distinct (map span_end [\<lparr>span_start = 3, span_end = 100\<rparr>, \<lparr>span_start = 103, span_end = (100::int)\<rparr>]) \<and>
   map_sum id last_function_parsed_ts
     (run ticking_clock [StartPreprocessFile (Some ''a.cc'') None, EndPreprocessFile] initial_tracker) =
     Inr 23 \<and>
   map_sum id function_events
     (run ticking_clock
        [StartPreprocessFile (Some ''a.cc'') None, EndPreprocessFile,
         EndParseFunction \<lparr>ff_name = ''f'', ff_file_name = ''a.cc'', ff_scope_name = None,
                           ff_scope_type = UNKNOWN\<rparr>] initial_tracker) =
     Inr [\<lparr>fe_name = ''f'', fe_file_name = ''a.cc'', fe_ts = \<lparr>span_start = 26, span_end = 30\<rparr>\<rparr>] \<and>
   (26::int) \<noteq> 20 + 3"
  by (simp add: end_parse_function_def start_preprocess_file_def end_preprocess_file_def
        ns_from_start_def int64_def initial_tracker_def frozen_clock_def ticking_clock_def
        CIRCULAR_POISON_VALUE_def Let_def)

section \<open>The scope tracker: coalescing consecutive functions of one scope\<close>

lemma fold_same_scope:
  assumes "infos \<noteq> []" "\<forall>info \<in> set infos. ff_scope_name info = Some nm"
    and "int64_readings clk (clock_reads s + length infos)" "cursor_in_range s"
  shows "did_last_function_have_scope (fold (end_parse_function clk) infos s) \<and>
         scope_events (fold (end_parse_function clk) infos s) =
           (if scope_events s \<noteq> [] \<and> did_last_function_have_scope s \<and> se_name (last (scope_events s)) = nm
            then butlast (scope_events s) @
                   [(last (scope_events s))\<lparr>se_ts := (se_ts (last (scope_events s)))
                       \<lparr>span_end := clk (clock_reads s + length infos - 1) + 1\<rparr>\<rparr>]
            else scope_events s @
                   [\<lparr>se_name = nm, se_type = ff_scope_type (hd infos),
                     se_ts = \<lparr>span_start = last_function_parsed_ts s + 3 - 1,
                              span_end = clk (clock_reads s + length infos - 1) + 1\<rparr>\<rparr>])"
  using assms(1-3)
proof (induction infos rule: rev_induct)
  case Nil
  then show ?case by simp
next
  case (snoc x xs)
  let ?t = "fold (end_parse_function clk) xs s"
  from snoc.prems(3) have rng_xs: "int64_readings clk (clock_reads s + length xs)"
    by (auto intro: int64_readings_le)
  note closed_form = fold_end_parse_function[OF rng_xs assms(4)]
  from closed_form snoc.prems(3) have rng_t: "int64_readings clk (Suc (clock_reads ?t))" by simp
  from closed_form have cur_t: "cursor_in_range ?t" by simp
  note one = end_parse_function_in_range(2)[OF rng_t cur_t, of x]
  have x: "ff_scope_name x = Some nm" using snoc.prems(2) by simp
  show ?case
  proof (cases "xs = []")
    case True
    with x show ?thesis
      using end_parse_function_in_range(2)[OF _ assms(4), of clk x] snoc.prems(3)
      by (simp add: end_parse_function_scope_events(2))
  next
    case False
    with snoc.prems(2) rng_xs snoc.IH have IH:
      "did_last_function_have_scope ?t"
      "scope_events ?t =
           (if scope_events s \<noteq> [] \<and> did_last_function_have_scope s \<and> se_name (last (scope_events s)) = nm
            then butlast (scope_events s) @
                   [(last (scope_events s))\<lparr>se_ts := (se_ts (last (scope_events s)))
                       \<lparr>span_end := clk (clock_reads s + length xs - 1) + 1\<rparr>\<rparr>]
            else scope_events s @
                   [\<lparr>se_name = nm, se_type = ff_scope_type (hd xs),
                     se_ts = \<lparr>span_start = last_function_parsed_ts s + 3 - 1,
                              span_end = clk (clock_reads s + length xs - 1) + 1\<rparr>\<rparr>])"
      by simp_all
    show ?thesis
      using False x IH closed_form
      by (simp add: one end_parse_function_scope_events(2))
  qed
qed

text \<open>
  Claim C6, as amended. Consecutive \<open>end_parse_function\<close> calls that carry the same
  non-null scope name share one scope event, and \<open>write_all_scopes\<close> emits it once, after
  the events of the scopes before it. When the run does not continue an accumulator that
  is already open for that name, its event carries the name, the category that came with
  the first call (NAMESPACE or STRUCT from the instrumentation layer, which passes
  UNKNOWN for any other enclosing construct), and the span from 1 ns before the start of
  the first function to 1 ns after the end of the last function of the run; when it
  continues one, the event keeps the category and the start of that accumulator and ends
  1 ns after the end of the last function. A following call with a different scope name
  leaves this event as it is and adds one new event for its own scope, spanning from
  1 ns before its function's start to 1 ns after its end. All readings that the calls
  take are timestamps in the range of \<open>int64_readings\<close>.
\<close>

theorem same_scope_coalesces:
  assumes "infos \<noteq> []" and "\<forall>info \<in> set infos. ff_scope_name info = Some nm"
    and "ff_scope_name other = Some nm'" and "nm' \<noteq> nm"
    and "int64_readings clk (clock_reads s + length infos + 1)" and "cursor_in_range s"
  shows
    "(let s1 = fold (end_parse_function clk) infos s;
          s2 = end_parse_function clk other s1;
          first_function = function_events s1 ! length (function_events s);
          last_function = last (function_events s1);
          next_function = last (function_events s2);
          continued = (scope_events s \<noteq> [] \<and> did_last_function_have_scope s \<and>
                       se_name (last (scope_events s)) = nm);
          earlier = map (\<lambda>item. \<lparr>ev_name = se_name item, ev_category = se_type item,
                                   ev_ts = se_ts item, ev_args = (False, [])\<rparr>)
                        (if continued then butlast (scope_events s) else scope_events s);
          run_event =
            \<lparr>ev_name = nm,
             ev_category = (if continued then se_type (last (scope_events s))
                            else ff_scope_type (hd infos)),
             ev_ts = \<lparr>span_start = (if continued then span_start (se_ts (last (scope_events s)))
                                     else span_start (fe_ts first_function) - 1),
                      span_end = span_end (fe_ts last_function) + 1\<rparr>,
             ev_args = (False, [])\<rparr>;
          next_event =
            \<lparr>ev_name = nm', ev_category = ff_scope_type other,
             ev_ts = \<lparr>span_start = span_start (fe_ts next_function) - 1,
                      span_end = span_end (fe_ts next_function) + 1\<rparr>,
             ev_args = (False, [])\<rparr>
      in fe_ts first_function =
           \<lparr>span_start = last_function_parsed_ts s + 3, span_end = clk (clock_reads s)\<rparr> \<and>
         span_end (fe_ts last_function) = clk (clock_reads s + length infos - 1) \<and>
         fe_ts next_function =
           \<lparr>span_start = clk (clock_reads s + length infos - 1) + 3,
            span_end = clk (clock_reads s + length infos)\<rparr> \<and>
         trace_buffer (write_all_scopes s1) = trace_buffer s1 @ earlier @ [run_event] \<and>
         trace_buffer (write_all_scopes s2) = trace_buffer s2 @ earlier @ [run_event, next_event])"
proof -
  define s1 where "s1 = fold (end_parse_function clk) infos s"
  define s2 where "s2 = end_parse_function clk other s1"
  define continued where "continued \<longleftrightarrow> scope_events s \<noteq> [] \<and> did_last_function_have_scope s \<and>
                       se_name (last (scope_events s)) = nm"
  define ev where "ev = (\<lambda>item :: ScopeEvent. \<lparr>ev_name = se_name item, ev_category = se_type item,
                                   ev_ts = se_ts item, ev_args = (False, [])\<rparr>)"
  have ev_eq: "scope_trace_event = ev"
    by (simp add: fun_eq_iff scope_trace_event_def ev_def)
  have len: "0 < length infos" using assms(1) by simp
  have ne: "[0..<length infos] \<noteq> []" using assms(1) by simp
  have idx: "clock_reads s + (length infos - Suc 0) = clock_reads s + length infos - Suc 0"
    using len by arith
  from assms(5) have rng: "int64_readings clk (clock_reads s + length infos)"
    by (auto intro: int64_readings_le)
  note closed_form = fold_end_parse_function[OF rng assms(6), folded s1_def]
  have first: "fe_ts (function_events s1 ! length (function_events s)) =
                 \<lparr>span_start = last_function_parsed_ts s + 3, span_end = clk (clock_reads s)\<rparr>"
    using len by (simp add: closed_form nth_append)
  have final: "span_end (fe_ts (last (function_events s1))) = clk (clock_reads s + length infos - 1)"
    using len ne by (simp add: closed_form last_map idx del: upt_eq_Nil_conv)
  have cursor1: "last_function_parsed_ts s1 = clk (clock_reads s + length infos - 1)"
    "clock_reads s1 = clock_reads s + length infos" "cursor_in_range s1"
    using assms(1) by (simp_all add: closed_form)
  from assms(5) have rng1: "int64_readings clk (Suc (clock_reads s1))"
    by (simp add: cursor1(2))
  note one = end_parse_function_in_range(1,2)[OF rng1 cursor1(3), of other, folded s2_def]
  have nxt: "fe_ts (last (function_events s2)) =
           \<lparr>span_start = clk (clock_reads s + length infos - 1) + 3,
            span_end = clk (clock_reads s + length infos)\<rparr>"
    by (simp add: one(1) cursor1)
  note run = fold_same_scope[OF assms(1,2) rng assms(6), folded s1_def continued_def]
  have merged: "scope_events s1 =
      (if continued then butlast (scope_events s) else scope_events s) @
        [\<lparr>se_name = nm,
          se_type = (if continued then se_type (last (scope_events s)) else ff_scope_type (hd infos)),
          se_ts = \<lparr>span_start = (if continued then span_start (se_ts (last (scope_events s)))
                                  else last_function_parsed_ts s + 3 - 1),
                   span_end = clk (clock_reads s + length infos - 1) + 1\<rparr>\<rparr>]"
  proof (cases continued)
    case True
    then have "se_name (last (scope_events s)) = nm" by (simp add: continued_def)
    with True run show ?thesis
      by (simp add: span_end_update ScopeEvent.equality)
  next
    case False
    with run show ?thesis by simp
  qed
  have name1: "scope_events s1 \<noteq> []" "se_name (last (scope_events s1)) = nm"
    by (simp_all add: merged)
  have next_scope: "scope_events s2 = scope_events s1 @
           [\<lparr>se_name = nm', se_type = ff_scope_type other,
             se_ts = \<lparr>span_start = clk (clock_reads s + length infos - 1) + 3 - 1,
                      span_end = clk (clock_reads s + length infos) + 1\<rparr>\<rparr>]"
    using assms(3,4) name1 by (simp add: one(2) cursor1)
  have emit1: "trace_buffer (write_all_scopes s1) = trace_buffer s1 @
      map ev (if continued then butlast (scope_events s) else scope_events s) @
       [\<lparr>ev_name = nm,
         ev_category = (if continued then se_type (last (scope_events s)) else ff_scope_type (hd infos)),
         ev_ts = \<lparr>span_start = (if continued then span_start (se_ts (last (scope_events s)))
                                  else last_function_parsed_ts s + 3 - 1),
                  span_end = clk (clock_reads s + length infos - 1) + 1\<rparr>,
         ev_args = (False, [])\<rparr>]"
    unfolding write_all_scopes_buffer ev_eq merged by (simp add: ev_def)
  have emit2: "trace_buffer (write_all_scopes s2) = trace_buffer s2 @
      map ev (if continued then butlast (scope_events s) else scope_events s) @
       [\<lparr>ev_name = nm,
         ev_category = (if continued then se_type (last (scope_events s)) else ff_scope_type (hd infos)),
         ev_ts = \<lparr>span_start = (if continued then span_start (se_ts (last (scope_events s)))
                                  else last_function_parsed_ts s + 3 - 1),
                  span_end = clk (clock_reads s + length infos - 1) + 1\<rparr>,
         ev_args = (False, [])\<rparr>,
        \<lparr>ev_name = nm', ev_category = ff_scope_type other,
         ev_ts = \<lparr>span_start = clk (clock_reads s + length infos - 1) + 3 - 1,
                  span_end = clk (clock_reads s + length infos) + 1\<rparr>,
         ev_args = (False, [])\<rparr>]"
    unfolding write_all_scopes_buffer ev_eq next_scope merged by (simp add: ev_def)
  show ?thesis
    unfolding Let_def s1_def[symmetric] s2_def[symmetric] continued_def[symmetric] ev_def[symmetric]
    using first final nxt emit1 emit2 by simp
qed

theorem same_scope_coalesces_witness:
  "(let foo = \<lparr>ff_name = ''f'', ff_file_name = ''a.cc'', ff_scope_name = Some ''Foo'', ff_scope_type = NAMESPACE\<rparr>;
        bar = \<lparr>ff_name = ''h'', ff_file_name = ''a.cc'', ff_scope_name = Some ''Bar'', ff_scope_type = STRUCT\<rparr>;
        s1 = fold (end_parse_function ticking_clock) [foo, foo] initial_tracker;
        s2 = end_parse_function ticking_clock bar s1
    in int64_readings ticking_clock 3 \<and> cursor_in_range initial_tracker \<and>
       map fe_ts (function_events s2) =
         [\<lparr>span_start = 3, span_end = 10\<rparr>, \<lparr>span_start = 13, span_end = 20\<rparr>,
          \<lparr>span_start = 23, span_end = 30\<rparr>] \<and>
       trace_buffer (write_all_scopes s1) =
         [\<lparr>ev_name = ''Foo'', ev_category = NAMESPACE, ev_ts = \<lparr>span_start = 2, span_end = 21\<rparr>,
           ev_args = (False, [])\<rparr>] \<and>
       trace_buffer (write_all_scopes s2) =
         [\<lparr>ev_name = ''Foo'', ev_category = NAMESPACE, ev_ts = \<lparr>span_start = 2, span_end = 21\<rparr>,
           ev_args = (False, [])\<rparr>,
          \<lparr>ev_name = ''Bar'', ev_category = STRUCT, ev_ts = \<lparr>span_start = 22, span_end = 31\<rparr>,
           ev_args = (False, [])\<rparr>])"
proof -
  define foo where "foo = \<lparr>ff_name = ''f'', ff_file_name = ''a.cc'', ff_scope_name = Some ''Foo'', ff_scope_type = NAMESPACE\<rparr>"
  define bar where "bar = \<lparr>ff_name = ''h'', ff_file_name = ''a.cc'', ff_scope_name = Some ''Bar'', ff_scope_type = STRUCT\<rparr>"
  define s1 where "s1 = fold (end_parse_function ticking_clock) [foo, foo] initial_tracker"
  define s2 where "s2 = end_parse_function ticking_clock bar s1"
  have hyps: "[foo, foo] \<noteq> []" "\<forall>info \<in> set [foo, foo]. ff_scope_name info = Some ''Foo''"
    "ff_scope_name bar = Some ''Bar''" "''Bar'' \<noteq> ''Foo''"
    by (simp_all add: foo_def bar_def)
  have rng3: "int64_readings ticking_clock 3"
    by (auto simp: int64_readings_def ticking_clock_def)
  have rng: "int64_readings ticking_clock (clock_reads initial_tracker + length [foo, foo] + 1)"
    by (auto simp: int64_readings_def ticking_clock_def initial_tracker_def)
  have cur: "cursor_in_range initial_tracker"
    by (simp add: cursor_in_range_def initial_tracker_def)
  have init: "scope_events initial_tracker = []" "function_events initial_tracker = []"
    "last_function_parsed_ts initial_tracker = 0" "clock_reads initial_tracker = 0"
    by (simp_all add: initial_tracker_def)
  have ty: "ff_scope_type foo = NAMESPACE" "ff_scope_type bar = STRUCT"
    by (simp_all add: foo_def bar_def)
  have tb: "trace_buffer s1 = []" "trace_buffer s2 = []"
    by (simp_all add: s1_def s2_def end_parse_function_frame initial_tracker_def)
  have fe2: "map fe_ts (function_events s2) =
         [\<lparr>span_start = 3, span_end = 10\<rparr>, \<lparr>span_start = 13, span_end = 20\<rparr>,
          \<lparr>span_start = 23, span_end = 30\<rparr>]"
    by (simp add: s2_def s1_def end_parse_function_function_events end_parse_function_cursor
          int64_def initial_tracker_def ticking_clock_def)
  then have fe: "fe_ts (function_events s1 ! 0) = \<lparr>span_start = 3, span_end = 10\<rparr>"
    "fe_ts (last (function_events s1)) = \<lparr>span_start = 13, span_end = 20\<rparr>"
    "fe_ts (last (function_events s2)) = \<lparr>span_start = 23, span_end = 30\<rparr>"
    by (simp_all add: s2_def s1_def end_parse_function_function_events end_parse_function_cursor
          int64_def initial_tracker_def ticking_clock_def)
  have "trace_buffer (write_all_scopes s1) =
         [\<lparr>ev_name = ''Foo'', ev_category = NAMESPACE, ev_ts = \<lparr>span_start = 2, span_end = 21\<rparr>,
           ev_args = (False, [])\<rparr>] \<and>
       trace_buffer (write_all_scopes s2) =
         [\<lparr>ev_name = ''Foo'', ev_category = NAMESPACE, ev_ts = \<lparr>span_start = 2, span_end = 21\<rparr>,
           ev_args = (False, [])\<rparr>,
          \<lparr>ev_name = ''Bar'', ev_category = STRUCT, ev_ts = \<lparr>span_start = 22, span_end = 31\<rparr>,
           ev_args = (False, [])\<rparr>]"
    using same_scope_coalesces [OF hyps rng cur]
    unfolding Let_def s1_def[symmetric] s2_def[symmetric]
    by (simp add: init ty fe tb)
  with rng3 cur fe2 show ?thesis
    by (simp only: Let_def s1_def s2_def foo_def bar_def)
qed

text \<open>
  Claim C6 as stated fails for a scope that is neither a namespace nor a class: for a
  function whose enclosing construct is of another kind the instrumentation layer
  passes the scope name with the category UNKNOWN, and the one event emitted for two
  consecutive functions of that scope is an UNKNOWN event, not a NAMESPACE or STRUCT
  event.
\<close>

theorem other_scope_is_emitted_as_unknown:
  "map_sum id trace_buffer
     (run ticking_clock
        [EndParseFunction \<lparr>ff_name = ''f'', ff_file_name = ''a.cc'', ff_scope_name = Some ''Foo'',
                           ff_scope_type = UNKNOWN\<rparr>,
         EndParseFunction \<lparr>ff_name = ''g'', ff_file_name = ''a.cc'', ff_scope_name = Some ''Foo'',
                           ff_scope_type = UNKNOWN\<rparr>,
         WriteAllScopes] initial_tracker) =
     Inr [\<lparr>ev_name = ''Foo'', ev_category = UNKNOWN, ev_ts = \<lparr>span_start = 2, span_end = 21\<rparr>,
           ev_args = (False, [])\<rparr>] \<and>
   UNKNOWN \<noteq> NAMESPACE \<and> UNKNOWN \<noteq> STRUCT"
  by (simp add: end_parse_function_def ns_from_start_def write_all_scopes_def add_event_def
        scope_trace_event_def int64_def initial_tracker_def ticking_clock_def)


section \<open>The pass tracker\<close>

lemma start_opt_pass_eq:
  "start_opt_pass clk pass s =
     s\<lparr>clock_reads := Suc (clock_reads s),
       pass_events := (if ope_pass (last_pass s) \<noteq> None
                       then pass_events s @ [\<lparr>ope_pass = ope_pass (last_pass s),
                              ope_ts = \<lparr>span_start = span_start (ope_ts (last_pass s)), span_end = clk (clock_reads s)\<rparr>\<rparr>]
                       else pass_events s),
       last_pass := \<lparr>ope_pass = pass, ope_ts = \<lparr>span_start = int64 (clk (clock_reads s) + 1), span_end = clk (clock_reads s)\<rparr>\<rparr>\<rparr>"
  by (simp add: start_opt_pass_def ns_from_start_def)

lemma write_opt_pass_loop_buffer:
  "map ope_pass evs = map Some ps \<Longrightarrow>
   write_opt_pass_loop evs s =
     Inr (s\<lparr>trace_buffer := trace_buffer s @ map2 pass_trace_event ps (map ope_ts evs)\<rparr>)"
proof (induction evs arbitrary: ps s)
  case Nil then show ?case by simp
next
  case (Cons e evs)
  then obtain p ps' where ps: "ps = p # ps'" "ope_pass e = Some p" "map ope_pass evs = map Some ps'"
    by (cases ps) auto
  from Cons.IH[OF ps(3), of "add_event (pass_trace_event p (ope_ts e)) s"]
  show ?case using ps by (simp add: add_event_def)
qed

lemma write_opt_pass_loop_fields:
  "write_opt_pass_loop evs s = Inr s' \<Longrightarrow> \<exists>new. s' = s\<lparr>trace_buffer := trace_buffer s @ new\<rparr>"
proof (induction evs arbitrary: s)
  case Nil
  then show ?case by (auto intro: exI[of _ "[]"])
next
  case (Cons e evs)
  then obtain p where p: "ope_pass e = Some p"
    and rest: "write_opt_pass_loop evs (add_event (pass_trace_event p (ope_ts e)) s) = Inr s'"
    by (auto split: option.splits)
  from Cons.IH[OF rest] obtain new where
    "s' = (add_event (pass_trace_event p (ope_ts e)) s)
            \<lparr>trace_buffer := trace_buffer (add_event (pass_trace_event p (ope_ts e)) s) @ new\<rparr>"
    by blast
  then have "s' = s\<lparr>trace_buffer := trace_buffer s @ (pass_trace_event p (ope_ts e) # new)\<rparr>"
    by (simp add: add_event_def)
  then show ?case by blast
qed

lemma write_preprocessing_loop_fields:
  "write_preprocessing_loop items s = Inr s' \<Longrightarrow> \<exists>new. s' = s\<lparr>trace_buffer := trace_buffer s @ new\<rparr>"
proof (induction items arbitrary: s)
  case Nil
  then show ?case by (auto intro: exI[of _ "[]"])
next
  case (Cons item items)
  obtain fname t0 where item: "item = (fname, t0)" by (cases item)
  show ?case
  proof (cases "fname = CIRCULAR_POISON_VALUE")
    case True
    with Cons item show ?thesis by simp
  next
    case False
    with Cons.prems item obtain finish where fin: "preprocess_end s fname = Some finish"
      and rest: "write_preprocessing_loop items (add_event (preprocess_trace_event s fname t0 finish) s) = Inr s'"
      by (auto split: option.splits)
    from Cons.IH[OF rest] obtain new where
      "s' = (add_event (preprocess_trace_event s fname t0 finish) s)
              \<lparr>trace_buffer := trace_buffer (add_event (preprocess_trace_event s fname t0 finish) s) @ new\<rparr>"
      by blast
    then have "s' = s\<lparr>trace_buffer := trace_buffer s @ (preprocess_trace_event s fname t0 finish # new)\<rparr>"
      by (simp add: add_event_def)
    then show ?thesis by blast
  qed
qed

section \<open>Which globals a call can change\<close>

lemma register_include_location_shape:
  assumes "register_include_location file_name dir_name s = Inr s'"
  shows "\<exists>a b c d. s' = s\<lparr>file_to_include_directory := a, normalized_files_map := b,
                            normalized_files := c, conflicted_files := d\<rparr>"
proof -
  have "s' = s\<lparr>file_to_include_directory := file_to_include_directory s',
                normalized_files_map := normalized_files_map s',
                normalized_files := normalized_files s',
                conflicted_files := conflicted_files s'\<rparr>"
    using assms
    by (auto simp: register_include_location_def Let_def split: if_splits sum.splits)
  then show ?thesis by blast
qed

lemma start_preprocess_file_shape:
  assumes "start_preprocess_file clk file_name pfile s = Inr s'"
  shows "\<exists>ps st a b c d. s' = s\<lparr>clock_reads := Suc (clock_reads s), preprocess_start := ps,
                            preprocessing_stack := st,
                            file_to_include_directory := a, normalized_files_map := b,
                            normalized_files := c, conflicted_files := d\<rparr>"
proof -
  have "s' = s\<lparr>clock_reads := Suc (clock_reads s), preprocess_start := preprocess_start s',
                preprocessing_stack := preprocessing_stack s',
                file_to_include_directory := file_to_include_directory s',
                normalized_files_map := normalized_files_map s',
                normalized_files := normalized_files s',
                conflicted_files := conflicted_files s'\<rparr>"
    using assms
    by (auto simp: start_preprocess_file_def ns_from_start_def Let_def
             split: if_splits option.splits dest!: register_include_location_shape)
  then show ?thesis by blast
qed

lemma end_preprocess_file_shape:
  assumes "end_preprocess_file clk s = Inr s'"
  shows "\<exists>pe st. s' = s\<lparr>clock_reads := Suc (clock_reads s), preprocess_end := pe,
                          preprocessing_stack := st,
                          last_function_parsed_ts := int64 (clk (clock_reads s) + 3)\<rparr>"
proof (cases "preprocessing_stack s")
  case Nil
  with assms show ?thesis by (simp add: end_preprocess_file_empty)
next
  case (Cons f below)
  with assms show ?thesis
    by (auto simp: end_preprocess_file_nonempty)
qed

lemma finish_preprocessing_stage_shape:
  "\<exists>s' n pe c. finish_preprocessing_stage clk s = Inr s' \<and>
      s' = s\<lparr>clock_reads := n, preprocess_end := pe, preprocessing_stack := [],
             last_function_parsed_ts := c\<rparr>"
proof -
  have "\<exists>s'. finish_preprocessing_stage clk s = Inr s' \<and>
          (\<exists>n pe st c. s' = s\<lparr>clock_reads := n, preprocess_end := pe, preprocessing_stack := st,
             last_function_parsed_ts := c\<rparr>) \<and> preprocessing_stack s' = []"
  proof (rule finish_preprocessing_stage_invariant)
    show "\<exists>n pe st c. s = s\<lparr>clock_reads := n, preprocess_end := pe, preprocessing_stack := st,
             last_function_parsed_ts := c\<rparr>"
      by (rule exI[of _ "clock_reads s"], rule exI[of _ "preprocess_end s"],
          rule exI[of _ "preprocessing_stack s"], rule exI[of _ "last_function_parsed_ts s"]) simp
  next
    fix t f below
    assume "\<exists>n pe st c. t = s\<lparr>clock_reads := n, preprocess_end := pe, preprocessing_stack := st,
             last_function_parsed_ts := c\<rparr>"
    then obtain n pe st c where t: "t = s\<lparr>clock_reads := n, preprocess_end := pe, preprocessing_stack := st,
             last_function_parsed_ts := c\<rparr>" by blast
    show "\<exists>n pe st c.
            t\<lparr>clock_reads := Suc (Suc (clock_reads t)),
              preprocess_end := (if preprocess_end t f = None
                                 then (preprocess_end t)(f \<mapsto> clk (clock_reads t))
                                 else preprocess_end t),
              preprocessing_stack := below,
              last_function_parsed_ts := clk (Suc (clock_reads t))\<rparr> =
            s\<lparr>clock_reads := n, preprocess_end := pe, preprocessing_stack := st,
              last_function_parsed_ts := c\<rparr>"
      by (subst t) (simp, blast)
  qed
  then obtain s' n pe st c where "finish_preprocessing_stage clk s = Inr s'"
    "s' = s\<lparr>clock_reads := n, preprocess_end := pe, preprocessing_stack := st,
             last_function_parsed_ts := c\<rparr>" "preprocessing_stack s' = []"
    by blast
  then show ?thesis by auto
qed

lemma write_preprocessing_events_shape:
  assumes "write_preprocessing_events clk s = Inr s'"
  shows "\<exists>n pe c new. s' = s\<lparr>clock_reads := n, preprocess_end := pe, preprocessing_stack := [],
             last_function_parsed_ts := c, trace_buffer := trace_buffer s @ new\<rparr>"
proof -
  obtain s1 n pe c where s1: "finish_preprocessing_stage clk s = Inr s1"
    "s1 = s\<lparr>clock_reads := n, preprocess_end := pe, preprocessing_stack := [],
             last_function_parsed_ts := c\<rparr>"
    using finish_preprocessing_stage_shape[of clk s] by blast
  with assms have "write_preprocessing_loop (preprocess_start s1) s1 = Inr s'"
    by (simp add: write_preprocessing_events_def)
  then obtain new where "s' = s1\<lparr>trace_buffer := trace_buffer s1 @ new\<rparr>"
    using write_preprocessing_loop_fields by blast
  then have "s' = s\<lparr>clock_reads := n, preprocess_end := pe, preprocessing_stack := [],
             last_function_parsed_ts := c, trace_buffer := trace_buffer s @ new\<rparr>"
    by (simp add: s1(2))
  then show ?thesis by blast
qed

lemma write_all_scopes_eq:
  "write_all_scopes s = s\<lparr>trace_buffer := trace_buffer s @ map scope_trace_event (scope_events s)\<rparr>"
proof -
  have "fold (\<lambda>item. add_event (scope_trace_event item)) xs t =
          t\<lparr>trace_buffer := trace_buffer t @ map scope_trace_event xs\<rparr>" for xs t
    by (induction xs arbitrary: t) (simp_all add: add_event_def)
  then show ?thesis by (simp add: write_all_scopes_def)
qed

lemma write_all_functions_eq:
  "write_all_functions s =
     s\<lparr>trace_buffer := trace_buffer s @ map (function_trace_event s) (function_events s)\<rparr>"
proof -
  have "fold (\<lambda>item. add_event (function_trace_event s item)) xs t =
          t\<lparr>trace_buffer := trace_buffer t @ map (function_trace_event s) xs\<rparr>" for xs t
    by (induction xs arbitrary: t) (simp_all add: add_event_def)
  then show ?thesis by (simp add: write_all_functions_def)
qed

lemma end_parse_function_shape:
  "\<exists>se fl. end_parse_function clk info s =
      s\<lparr>clock_reads := Suc (clock_reads s), last_function_parsed_ts := clk (clock_reads s),
        function_events := function_events s @
           [\<lparr>fe_name = ff_name info, fe_file_name = ff_file_name info,
             fe_ts = \<lparr>span_start = int64 (last_function_parsed_ts s + 3), span_end = clk (clock_reads s)\<rparr>\<rparr>],
        scope_events := se, did_last_function_have_scope := fl\<rparr>"
proof -
  have "end_parse_function clk info s =
      s\<lparr>clock_reads := Suc (clock_reads s), last_function_parsed_ts := clk (clock_reads s),
        function_events := function_events s @
           [\<lparr>fe_name = ff_name info, fe_file_name = ff_file_name info,
             fe_ts = \<lparr>span_start = int64 (last_function_parsed_ts s + 3), span_end = clk (clock_reads s)\<rparr>\<rparr>],
        scope_events := scope_events (end_parse_function clk info s),
        did_last_function_have_scope := did_last_function_have_scope (end_parse_function clk info s)\<rparr>"
    by (simp add: end_parse_function_def ns_from_start_def Let_def split: option.splits)
  then show ?thesis by blast
qed

text \<open>The pass tracker's state changes in \<open>start_opt_pass\<close> only.\<close>

lemma step_pass_fields:
  assumes "step clk c s = Inr s'"
  shows "(case c of
            StartOptPass pass \<Rightarrow> s' = start_opt_pass clk pass s
          | _ \<Rightarrow> pass_events s' = pass_events s \<and> last_pass s' = last_pass s)"
proof (cases c)
  case (StartPreprocessFile file_name pfile)
  with assms have "start_preprocess_file clk file_name pfile s = Inr s'" by simp
  from start_preprocess_file_shape[OF this] obtain ps st a b c d where
    "s' = s\<lparr>clock_reads := Suc (clock_reads s), preprocess_start := ps,
            preprocessing_stack := st,
            file_to_include_directory := a, normalized_files_map := b,
            normalized_files := c, conflicted_files := d\<rparr>"
    by blast
  with StartPreprocessFile show ?thesis by simp
next
  case EndPreprocessFile
  with assms have "end_preprocess_file clk s = Inr s'" by simp
  from end_preprocess_file_shape[OF this] obtain pe st where
    "s' = s\<lparr>clock_reads := Suc (clock_reads s), preprocess_end := pe,
            preprocessing_stack := st, last_function_parsed_ts := int64 (clk (clock_reads s) + 3)\<rparr>"
    by blast
  with EndPreprocessFile show ?thesis by simp
next
  case FinishPreprocessingStage
  with assms have "finish_preprocessing_stage clk s = Inr s'" by simp
  with finish_preprocessing_stage_shape[of clk s] obtain n pe c where
    "s' = s\<lparr>clock_reads := n, preprocess_end := pe, preprocessing_stack := [],
            last_function_parsed_ts := c\<rparr>"
    by auto
  with FinishPreprocessingStage show ?thesis by simp
next
  case (StartOptPass pass)
  with assms show ?thesis by auto
next
  case (EndParseFunction info)
  with assms show ?thesis by (auto simp: end_parse_function_frame)
next
  case WritePreprocessingEvents
  with assms have "write_preprocessing_events clk s = Inr s'" by simp
  from write_preprocessing_events_shape[OF this] obtain n pe c new where
    "s' = s\<lparr>clock_reads := n, preprocess_end := pe, preprocessing_stack := [],
            last_function_parsed_ts := c, trace_buffer := trace_buffer s @ new\<rparr>"
    by blast
  with WritePreprocessingEvents show ?thesis by simp
next
  case WriteOptPassEvents
  with assms have "write_opt_pass_loop (pass_events s) s = Inr s'"
    by (simp add: write_opt_pass_events_def)
  from write_opt_pass_loop_fields[OF this] obtain new where
    "s' = s\<lparr>trace_buffer := trace_buffer s @ new\<rparr>" by blast
  with WriteOptPassEvents show ?thesis by simp
next
  case WriteAllScopes
  with assms have "s' = write_all_scopes s" by simp
  with WriteAllScopes show ?thesis by (simp add: write_all_scopes_eq)
next
  case WriteAllFunctions
  with assms have "s' = write_all_functions s" by simp
  with WriteAllFunctions show ?thesis by (simp add: write_all_functions_eq)
qed

lemma step_pending_passes_inv:
  assumes "pending_passes_inv s" "step clk c s = Inr s'"
  shows "pending_passes_inv s'"
  using assms(1) step_pass_fields[OF assms(2)]
  by (cases c) (auto simp: pending_passes_inv_def start_opt_pass_eq)

lemma run_pending_passes_inv:
  "run clk cs initial_tracker = Inr s \<Longrightarrow> pending_passes_inv s"
proof (erule run_invariant[where P = pending_passes_inv])
  show "pending_passes_inv initial_tracker"
    by (simp add: pending_passes_inv_def initial_tracker_def)
qed (rule step_pending_passes_inv)

lemma pending_passes_map:
  "pending_passes_inv s \<Longrightarrow> \<exists>ps. map ope_pass (pass_events s) = map Some ps"
  unfolding pending_passes_inv_def
proof (induction "pass_events s" arbitrary: s)
  case Nil
  then show ?case by simp
next
  case (Cons e es)
  have "\<forall>e\<in>set es. ope_pass e \<noteq> None" using Cons.hyps(2) Cons.prems by (metis list.set_intros(2))
  then have "\<exists>ps. map ope_pass es = map Some ps"
    using Cons.hyps(1)[of "s\<lparr>pass_events := es\<rparr>"] by simp
  moreover obtain p where "ope_pass e = Some p"
    using Cons.hyps(2) Cons.prems by (metis list.set_intros(1) not_Some_eq)
  ultimately show ?case
    using Cons.hyps(2)[symmetric] by (auto intro: exI[of _ "p # _"] simp: map_eq_Cons_conv)
qed


text \<open>
  Claim C7. In every reachable state a \<open>start_opt_pass\<close> call closes the open pass (if
  there is one) at the clock reading of the call and appends it to the pending list, and
  opens a span for the given pass that starts 1 ns later; \<open>write_opt_pass_events\<close> emits
  exactly one event per pending entry, so nothing for the pass that is still open, and
  the event of an entry carries the name of its pass, the category of the kind of its
  pass, the span of the entry and the pass number in decimal. Two calls for passes P1 and
  P2 followed by the emission give exactly one event, for P1, from 1 ns after the first
  reading to the second reading. The readings that the calls take are timestamps in the
  range of \<open>int64_readings\<close>.
\<close>

theorem enter_pass_closes_previous:
  assumes "run clk calls initial_tracker = Inr s"
    and "int64_readings clk (clock_reads s + 2)"
  shows "start_opt_pass clk pass s =
           s\<lparr>clock_reads := Suc (clock_reads s),
             pass_events :=
               (if ope_pass (last_pass s) \<noteq> None
                then pass_events s @
                       [\<lparr>ope_pass = ope_pass (last_pass s),
                         ope_ts = \<lparr>span_start = span_start (ope_ts (last_pass s)),
                                  span_end = clk (clock_reads s)\<rparr>\<rparr>]
                else pass_events s),
             last_pass := \<lparr>ope_pass = pass,
                           ope_ts = \<lparr>span_start = clk (clock_reads s) + 1,
                                    span_end = clk (clock_reads s)\<rparr>\<rparr>\<rparr> \<and>
         (\<exists>ps. map ope_pass (pass_events s) = map Some ps \<and>
               write_opt_pass_events s =
                 Inr (s\<lparr>trace_buffer := trace_buffer s @
                        map2 (\<lambda>p ts.
                                \<lparr>ev_name = pass_name p,
                                 ev_category = (case pass_kind p of
                                                  OPT_GIMPLE_PASS \<Rightarrow> GIMPLE_PASS
                                                | OPT_RTL_PASS \<Rightarrow> RTL_PASS
                                                | OPT_SIMPLE_IPA_PASS \<Rightarrow> SIMPLE_IPA_PASS
                                                | OPT_IPA_PASS \<Rightarrow> IPA_PASS),
                                 ev_ts = ts,
                                 ev_args = (True, [(''static_pass_number'',
                                                    to_string (static_pass_number p))])\<rparr>)
                             ps (map ope_ts (pass_events s))\<rparr>)) \<and>
         run clk [StartOptPass (Some p1), StartOptPass (Some p2), WriteOptPassEvents] initial_tracker =
           Inr (initial_tracker
                 \<lparr>clock_reads := 2,
                  pass_events := [\<lparr>ope_pass = Some p1,
                                   ope_ts = \<lparr>span_start = clk 0 + 1, span_end = clk 1\<rparr>\<rparr>],
                  last_pass := \<lparr>ope_pass = Some p2,
                                ope_ts = \<lparr>span_start = clk 1 + 1, span_end = clk 1\<rparr>\<rparr>,
                  trace_buffer :=
                    [\<lparr>ev_name = pass_name p1,
                      ev_category = (case pass_kind p1 of
                                       OPT_GIMPLE_PASS \<Rightarrow> GIMPLE_PASS
                                     | OPT_RTL_PASS \<Rightarrow> RTL_PASS
                                     | OPT_SIMPLE_IPA_PASS \<Rightarrow> SIMPLE_IPA_PASS
                                     | OPT_IPA_PASS \<Rightarrow> IPA_PASS),
                      ev_ts = \<lparr>span_start = clk 0 + 1, span_end = clk 1\<rparr>,
                      ev_args = (True, [(''static_pass_number'',
                                         to_string (static_pass_number p1))])\<rparr>]\<rparr>)"
proof -
  have ev: "pass_trace_event =
      (\<lambda>p ts. \<lparr>ev_name = pass_name p,
                ev_category = (case pass_kind p of
                                 OPT_GIMPLE_PASS \<Rightarrow> GIMPLE_PASS
                               | OPT_RTL_PASS \<Rightarrow> RTL_PASS
                               | OPT_SIMPLE_IPA_PASS \<Rightarrow> SIMPLE_IPA_PASS
                               | OPT_IPA_PASS \<Rightarrow> IPA_PASS),
                ev_ts = ts,
                ev_args = (True, [(''static_pass_number'', to_string (static_pass_number p))])\<rparr>)"
    by (simp add: fun_eq_iff pass_trace_event_def pass_type_def)
  have w: "int64 (clk (clock_reads s) + 1) = clk (clock_reads s) + 1"
    using int64_reading[OF assms(2), of "clock_reads s" 1] by simp
  have w0: "int64 (clk 0 + 1) = clk 0 + 1" "int64 (clk (Suc 0) + 1) = clk (Suc 0) + 1"
    using int64_reading[OF assms(2), of 0 1] int64_reading[OF assms(2), of "Suc 0" 1]
    by simp_all
  from run_pending_passes_inv[OF assms(1)] obtain ps where
    ps: "map ope_pass (pass_events s) = map Some ps"
    using pending_passes_map by blast
  have emit: "write_opt_pass_events s =
      Inr (s\<lparr>trace_buffer := trace_buffer s @ map2 pass_trace_event ps (map ope_ts (pass_events s))\<rparr>)"
    unfolding write_opt_pass_events_def by (rule write_opt_pass_loop_buffer[OF ps])
  have example:
    "run clk [StartOptPass (Some p1), StartOptPass (Some p2), WriteOptPassEvents] initial_tracker =
           Inr (initial_tracker
                 \<lparr>clock_reads := 2,
                  pass_events := [\<lparr>ope_pass = Some p1,
                                   ope_ts = \<lparr>span_start = clk 0 + 1, span_end = clk 1\<rparr>\<rparr>],
                  last_pass := \<lparr>ope_pass = Some p2,
                                ope_ts = \<lparr>span_start = clk 1 + 1, span_end = clk 1\<rparr>\<rparr>,
                  trace_buffer := [pass_trace_event p1 \<lparr>span_start = clk 0 + 1, span_end = clk 1\<rparr>]\<rparr>)"
    by (simp add: start_opt_pass_eq write_opt_pass_events_def add_event_def initial_tracker_def w0)
  show ?thesis
    using ps emit[unfolded ev] example[unfolded ev]
    by (simp only: start_opt_pass_eq w) blast
qed

theorem enter_pass_closes_previous_witness:
  "run ticking_clock [] initial_tracker = Inr initial_tracker \<and>
   int64_readings ticking_clock (clock_reads initial_tracker + 2) \<and>
   last_pass (start_opt_pass ticking_clock
      (Some \<lparr>pass_name = ''ssa'', pass_kind = OPT_GIMPLE_PASS, static_pass_number = 42\<rparr>) initial_tracker) =
     \<lparr>ope_pass = Some \<lparr>pass_name = ''ssa'', pass_kind = OPT_GIMPLE_PASS, static_pass_number = 42\<rparr>,
      ope_ts = \<lparr>span_start = 11, span_end = 10\<rparr>\<rparr> \<and>
   (\<exists>s'. run ticking_clock
      [StartOptPass (Some \<lparr>pass_name = ''ssa'', pass_kind = OPT_GIMPLE_PASS, static_pass_number = 42\<rparr>),
       StartOptPass (Some \<lparr>pass_name = ''expand'', pass_kind = OPT_RTL_PASS, static_pass_number = 7\<rparr>),
       WriteOptPassEvents] initial_tracker = Inr s' \<and>
      pass_events s' =
       [\<lparr>ope_pass = Some \<lparr>pass_name = ''ssa'', pass_kind = OPT_GIMPLE_PASS, static_pass_number = 42\<rparr>,
         ope_ts = \<lparr>span_start = 11, span_end = 20\<rparr>\<rparr>] \<and>
      last_pass s' =
       \<lparr>ope_pass = Some \<lparr>pass_name = ''expand'', pass_kind = OPT_RTL_PASS, static_pass_number = 7\<rparr>,
        ope_ts = \<lparr>span_start = 21, span_end = 20\<rparr>\<rparr> \<and>
      trace_buffer s' =
       [\<lparr>ev_name = ''ssa'', ev_category = GIMPLE_PASS, ev_ts = \<lparr>span_start = 11, span_end = 20\<rparr>,
         ev_args = (True, [(''static_pass_number'', ''42'')])\<rparr>])"
proof -
  have reach: "run ticking_clock [] initial_tracker = Inr initial_tracker" by simp
  have rng: "int64_readings ticking_clock (clock_reads initial_tracker + 2)"
    by (auto simp: int64_readings_def ticking_clock_def initial_tracker_def)
  have str: "to_string 42 = ''42''"
    by code_simp
  note inst = enter_pass_closes_previous [OF reach rng,
        of "Some \<lparr>pass_name = ''ssa'', pass_kind = OPT_GIMPLE_PASS, static_pass_number = 42\<rparr>"
           "\<lparr>pass_name = ''ssa'', pass_kind = OPT_GIMPLE_PASS, static_pass_number = 42\<rparr>"
           "\<lparr>pass_name = ''expand'', pass_kind = OPT_RTL_PASS, static_pass_number = 7\<rparr>"]
  have opened: "last_pass (start_opt_pass ticking_clock
      (Some \<lparr>pass_name = ''ssa'', pass_kind = OPT_GIMPLE_PASS, static_pass_number = 42\<rparr>) initial_tracker) =
     \<lparr>ope_pass = Some \<lparr>pass_name = ''ssa'', pass_kind = OPT_GIMPLE_PASS, static_pass_number = 42\<rparr>,
      ope_ts = \<lparr>span_start = 11, span_end = 10\<rparr>\<rparr>"
    by (subst conjunct1[OF inst]) (simp add: initial_tracker_def ticking_clock_def)
  have emitted: "\<exists>s'. run ticking_clock
      [StartOptPass (Some \<lparr>pass_name = ''ssa'', pass_kind = OPT_GIMPLE_PASS, static_pass_number = 42\<rparr>),
       StartOptPass (Some \<lparr>pass_name = ''expand'', pass_kind = OPT_RTL_PASS, static_pass_number = 7\<rparr>),
       WriteOptPassEvents] initial_tracker = Inr s' \<and>
      pass_events s' =
       [\<lparr>ope_pass = Some \<lparr>pass_name = ''ssa'', pass_kind = OPT_GIMPLE_PASS, static_pass_number = 42\<rparr>,
         ope_ts = \<lparr>span_start = 11, span_end = 20\<rparr>\<rparr>] \<and>
      last_pass s' =
       \<lparr>ope_pass = Some \<lparr>pass_name = ''expand'', pass_kind = OPT_RTL_PASS, static_pass_number = 7\<rparr>,
        ope_ts = \<lparr>span_start = 21, span_end = 20\<rparr>\<rparr> \<and>
      trace_buffer s' =
       [\<lparr>ev_name = ''ssa'', ev_category = GIMPLE_PASS, ev_ts = \<lparr>span_start = 11, span_end = 20\<rparr>,
         ev_args = (True, [(''static_pass_number'', ''42'')])\<rparr>]"
    by (rule exI, rule conjI, rule conjunct2[OF conjunct2[OF inst]])
       (simp add: str ticking_clock_def)
  show ?thesis
    using reach rng opened emitted by blast
qed

text \<open>
  Claim C9, as amended. \<open>end_preprocess_file\<close> requires a non-empty stack and does not
  check it: on an empty stack it reads the top of the empty \<open>std::stack\<close>, which is
  undefined behaviour and no guaranteed abort; on a non-empty stack it succeeds and pops
  exactly the top frame. The drain \<open>finish_preprocessing_stage\<close> tests the stack before
  every call and so never fails.
\<close>

theorem leave_file_needs_open_file:
  "(preprocessing_stack s = [] \<longrightarrow> end_preprocess_file clk s = Inl Undefined_Behaviour) \<and>
   (preprocessing_stack s \<noteq> [] \<longrightarrow>
      (\<exists>s'. end_preprocess_file clk s = Inr s' \<and>
            preprocessing_stack s' = tl (preprocessing_stack s))) \<and>
   (\<exists>s'. finish_preprocessing_stage clk s = Inr s' \<and> preprocessing_stack s' = [])"
proof -
  have "\<exists>s'. end_preprocess_file clk s = Inr s' \<and> preprocessing_stack s' = tl (preprocessing_stack s)"
    if "preprocessing_stack s \<noteq> []"
  proof -
    from that obtain f below where "preprocessing_stack s = f # below"
      by (cases "preprocessing_stack s") auto
    then show ?thesis by (simp add: end_preprocess_file_nonempty)
  qed
  moreover have "\<exists>s'. finish_preprocessing_stage clk s = Inr s' \<and> preprocessing_stack s' = []"
    using finish_preprocessing_stage_shape[of clk s] by auto
  ultimately show ?thesis
    by (simp add: end_preprocess_file_empty)
qed

theorem leave_file_needs_open_file_witness:
  "end_preprocess_file ticking_clock initial_tracker = Inl Undefined_Behaviour \<and>
   (\<exists>s'. end_preprocess_file ticking_clock (initial_tracker\<lparr>preprocessing_stack := [''a.cc'']\<rparr>) = Inr s' \<and>
         preprocessing_stack s' = []) \<and>
   (\<exists>s'. finish_preprocessing_stage ticking_clock (initial_tracker\<lparr>preprocessing_stack := [''a.cc'']\<rparr>) = Inr s' \<and>
         preprocessing_stack s' = [])"
  using leave_file_needs_open_file [of initial_tracker ticking_clock]
    leave_file_needs_open_file [of "initial_tracker\<lparr>preprocessing_stack := [''a.cc'']\<rparr>" ticking_clock]
  by (simp add: initial_tracker_def)

text \<open>
  Claim C9 as stated fails: on the empty stack of the initial state the call does not end
  in the thrown exception of a checked access, it runs into undefined behaviour.
\<close>

theorem leave_file_on_empty_stack_is_unchecked:
  "end_preprocess_file frozen_clock initial_tracker \<noteq> Inl Out_Of_Range \<and>
   end_preprocess_file frozen_clock initial_tracker = Inl Undefined_Behaviour"
  by (simp add: end_preprocess_file_def ns_from_start_def initial_tracker_def)

text \<open>
  Claim C10. \<open>start_preprocess_file\<close> with a null file name or with the name
  \<open><command-line>\<close> only takes its clock reading: every global of the tracker keeps its
  value, so no start is recorded, nothing is pushed, nothing is registered and no event
  can come from the call.
\<close>

theorem enter_ignored_file_is_no_op:
  "file_name = None \<or> file_name = Some ''<command-line>'' \<Longrightarrow>
   start_preprocess_file clk file_name pfile s = Inr (s\<lparr>clock_reads := Suc (clock_reads s)\<rparr>)"
  by (auto simp: start_preprocess_file_def ns_from_start_def)

theorem enter_ignored_file_is_no_op_witness:
  "start_preprocess_file ticking_clock (Some ''<command-line>'')
      (Some \<lparr>real_dir_name = Some ''/usr/include'', real_file_name = None\<rparr>) initial_tracker =
     Inr (initial_tracker\<lparr>clock_reads := 1\<rparr>) \<and>
   start_preprocess_file ticking_clock None None initial_tracker =
     Inr (initial_tracker\<lparr>clock_reads := 1\<rparr>)"
  using enter_ignored_file_is_no_op [of "Some ''<command-line>''" ticking_clock
          "Some \<lparr>real_dir_name = Some ''/usr/include'', real_file_name = None\<rparr>" initial_tracker]
        enter_ignored_file_is_no_op [of None ticking_clock None initial_tracker]
  by (simp add: initial_tracker_def)

section \<open>The path normalizer\<close>

lemma paths_extend_refl: "paths_extend s s"
  by (simp add: paths_extend_def)

lemma paths_extend_trans: "paths_extend s t \<Longrightarrow> paths_extend t u \<Longrightarrow> paths_extend s u"
  unfolding paths_extend_def by (auto simp: domIff)

lemma paths_extend_same:
  assumes "file_to_include_directory t = file_to_include_directory s"
    "normalized_files_map t = normalized_files_map s"
    "normalized_files t = normalized_files s" "conflicted_files t = conflicted_files s"
  shows "paths_extend s t"
  using assms by (simp add: paths_extend_def)

lemma register_include_location_extends:
  "register_include_location file_name dir_name s = Inr s' \<Longrightarrow> paths_extend s s'"
  by (auto simp: register_include_location_def paths_extend_def Let_def
           split: if_splits sum.splits)

lemma register_include_location_fresh:
  assumes "file_to_include_directory s file_name = None"
    and "starts_with file_name dir_name"
    and "substr file_name (length dir_name + 1) = Inr display"
  shows "\<exists>s'. register_include_location file_name dir_name s = Inr s' \<and>
          file_to_include_directory s' = (file_to_include_directory s)(file_name \<mapsto> dir_name) \<and>
          normalized_files_map s' = (normalized_files_map s)(file_name \<mapsto> display) \<and>
          normalized_files s' = insert display (normalized_files s) \<and>
          conflicted_files s' =
            (if display \<in> normalized_files s then insert display (conflicted_files s)
             else conflicted_files s)"
  using assms by (auto simp: register_include_location_def Let_def)

lemma start_preprocess_file_effect:
  assumes "fname \<noteq> ''<command-line>''"
  shows "start_preprocess_file clk (Some fname) pfile s =
     (case (if circular_include s fname then None else pfile) of
        None \<Rightarrow> Inr (push_file clk fname s)
      | Some reader \<Rightarrow>
          (case real_dir_name reader of
             None \<Rightarrow> Inr (push_file clk fname s)
           | Some dir \<Rightarrow>
               (case real_file_name reader of
                  None \<Rightarrow> Inr (push_file clk fname s)
                | Some file \<Rightarrow> register_include_location file dir (push_file clk fname s))))"
proof -
  note defs = start_preprocess_file_def ns_from_start_def push_file_def pushed_name_def
    circular_include_def Let_def prod.case
  show ?thesis
  proof (cases "map_of (preprocess_start s) fname")
    case None
    with assms show ?thesis
      unfolding defs by (simp split: option.splits)
  next
    case started: (Some st)
    show ?thesis
    proof (cases "preprocess_end s fname")
      case (Some e)
      with started assms show ?thesis
        unfolding defs by (simp split: option.splits)
    next
      case None
      show ?thesis
      proof (cases "map_of (preprocess_start s) CIRCULAR_POISON_VALUE")
        case poison: None
        with None started assms show ?thesis
          unfolding defs by simp
      next
        case poison: (Some pt)
        with None started assms show ?thesis
          unfolding defs by simp
      qed
    qed
  qed
qed

lemma start_preprocess_file_cases:
  assumes "start_preprocess_file clk file_name pfile s = Inr s'"
  obtains (ignored) "ignored_file_name file_name" "s' = s\<lparr>clock_reads := Suc (clock_reads s)\<rparr>"
  | (pushed) fname where "file_name = Some fname" "fname \<noteq> ''<command-line>''"
      "s' = push_file clk fname s"
  | (registered) fname reader dir fpath where "file_name = Some fname" "fname \<noteq> ''<command-line>''"
      "\<not> circular_include s fname" "pfile = Some reader"
      "real_dir_name reader = Some dir" "real_file_name reader = Some fpath"
      "register_include_location fpath dir (push_file clk fname s) = Inr s'"
proof (cases "ignored_file_name file_name")
  case True
  with assms have "s' = s\<lparr>clock_reads := Suc (clock_reads s)\<rparr>"
    by (auto simp: ignored_file_name_def start_preprocess_file_def ns_from_start_def)
  with True show ?thesis by (rule ignored)
next
  case False
  then obtain fname where fname: "file_name = Some fname" "fname \<noteq> ''<command-line>''"
    by (auto simp: ignored_file_name_def)
  from assms show ?thesis
    unfolding fname(1) start_preprocess_file_effect[OF fname(2)]
    using fname pushed registered
    by (auto split: option.splits if_splits)
qed

lemma push_file_paths:
  "file_to_include_directory (push_file clk fname s) = file_to_include_directory s"
  "normalized_files_map (push_file clk fname s) = normalized_files_map s"
  "normalized_files (push_file clk fname s) = normalized_files s"
  "conflicted_files (push_file clk fname s) = conflicted_files s"
  by (simp_all add: push_file_def)

lemma start_preprocess_file_extends:
  assumes "start_preprocess_file clk file_name pfile s = Inr s'"
  shows "paths_extend s s'"
  using assms
proof (cases rule: start_preprocess_file_cases)
  case ignored
  then show ?thesis by (simp add: paths_extend_def)
next
  case (pushed fname)
  then show ?thesis by (simp add: paths_extend_def push_file_paths)
next
  case (registered fname reader dir fpath)
  have "paths_extend s (push_file clk fname s)"
    by (simp add: paths_extend_def push_file_paths)
  with register_include_location_extends[OF registered(7)] show ?thesis
    by (rule paths_extend_trans[rotated])
qed

lemma step_paths_extend:
  assumes "step clk c s = Inr s'"
  shows "paths_extend s s'"
proof (cases c)
  case (StartPreprocessFile file_name pfile)
  with assms show ?thesis by (simp add: start_preprocess_file_extends)
next
  case EndPreprocessFile
  with assms have "end_preprocess_file clk s = Inr s'" by simp
  from end_preprocess_file_shape[OF this] obtain pe st where
    "s' = s\<lparr>clock_reads := Suc (clock_reads s), preprocess_end := pe,
            preprocessing_stack := st, last_function_parsed_ts := int64 (clk (clock_reads s) + 3)\<rparr>"
    by blast
  then show ?thesis by (simp add: paths_extend_def)
next
  case FinishPreprocessingStage
  with assms have "finish_preprocessing_stage clk s = Inr s'" by simp
  with finish_preprocessing_stage_shape[of clk s] obtain n pe c where
    "s' = s\<lparr>clock_reads := n, preprocess_end := pe, preprocessing_stack := [],
            last_function_parsed_ts := c\<rparr>"
    by auto
  then show ?thesis by (simp add: paths_extend_def)
next
  case (StartOptPass pass)
  with assms show ?thesis by (auto simp: start_opt_pass_eq paths_extend_def)
next
  case (EndParseFunction info)
  with assms show ?thesis by (auto simp: end_parse_function_frame paths_extend_def)
next
  case WritePreprocessingEvents
  with assms have "write_preprocessing_events clk s = Inr s'" by simp
  from write_preprocessing_events_shape[OF this] obtain n pe c new where
    "s' = s\<lparr>clock_reads := n, preprocess_end := pe, preprocessing_stack := [],
            last_function_parsed_ts := c, trace_buffer := trace_buffer s @ new\<rparr>"
    by blast
  then show ?thesis by (simp add: paths_extend_def)
next
  case WriteOptPassEvents
  with assms have "write_opt_pass_loop (pass_events s) s = Inr s'"
    by (simp add: write_opt_pass_events_def)
  from write_opt_pass_loop_fields[OF this] obtain new where
    "s' = s\<lparr>trace_buffer := trace_buffer s @ new\<rparr>" by blast
  then show ?thesis by (simp add: paths_extend_def)
next
  case WriteAllScopes
  with assms show ?thesis by (auto simp: write_all_scopes_eq paths_extend_def)
next
  case WriteAllFunctions
  with assms show ?thesis by (auto simp: write_all_functions_eq paths_extend_def)
qed

lemma run_paths_extend:
  assumes "run clk cs s = Inr s'"
  shows "paths_extend s s'"
  using assms
proof (rule run_invariant[where P = "paths_extend s"])
  show "paths_extend s s" by (rule paths_extend_refl)
next
  fix c t t'
  assume "paths_extend s t" "step clk c t = Inr t'"
  then show "paths_extend s t'"
    using step_paths_extend paths_extend_trans by blast
qed

text \<open>
  Claim C1. Two different files whose registrations compute the same display name: once
  the second is registered, the name is in the conflicted set and stays there whatever
  is called afterwards, and \<open>normalized_file_name\<close> answers with the path it was asked
  about for both files, the one registered first included.
\<close>

theorem conflicting_display_names_fall_back:
  assumes "file1 \<noteq> file2"
    and "starts_with file1 dir1" and "substr file1 (length dir1 + 1) = Inr display"
    and "starts_with file2 dir2" and "substr file2 (length dir2 + 1) = Inr display"
    and "file_to_include_directory s file1 = None"
    and "register_include_location file1 dir1 s = Inr s1"
    and "run clk calls1 s1 = Inr s2"
    and "file_to_include_directory s2 file2 = None"
    and "register_include_location file2 dir2 s2 = Inr s3"
    and "run clk calls2 s3 = Inr s4"
  shows "display \<in> conflicted_files s3 \<and> display \<in> conflicted_files s4 \<and>
         normalized_file_name s3 file1 = file1 \<and> normalized_file_name s3 file2 = file2 \<and>
         normalized_file_name s4 file1 = file1 \<and> normalized_file_name s4 file2 = file2"
proof -
  from register_include_location_fresh[OF assms(6,2,3)] assms(7)
  have s1: "file_to_include_directory s1 file1 = Some dir1"
    "normalized_files_map s1 file1 = Some display" "display \<in> normalized_files s1"
    by auto
  have e12: "paths_extend s1 s2" using assms(8) by (rule run_paths_extend)
  with s1 have s2: "normalized_files_map s2 file1 = Some display" "display \<in> normalized_files s2"
    by (auto simp: paths_extend_def domIff)
  from register_include_location_fresh[OF assms(9,4,5)] assms(10)
  have s3: "normalized_files_map s3 = (normalized_files_map s2)(file2 \<mapsto> display)"
    "file_to_include_directory s3 = (file_to_include_directory s2)(file2 \<mapsto> dir2)"
    "conflicted_files s3 = insert display (conflicted_files s2)"
    using s2(2) by auto
  have ftid3: "file_to_include_directory s3 file1 \<noteq> None" "file_to_include_directory s3 file2 \<noteq> None"
    using s1(1) e12 assms(1) by (auto simp: s3(2) paths_extend_def domIff)
  have nfm3: "normalized_files_map s3 file1 = Some display" "normalized_files_map s3 file2 = Some display"
    using s2(1) assms(1) by (simp_all add: s3(1))
  have c3: "display \<in> conflicted_files s3" by (simp add: s3(3))
  have e34: "paths_extend s3 s4" using assms(11) by (rule run_paths_extend)
  have nfm4: "normalized_files_map s4 file1 = Some display" "normalized_files_map s4 file2 = Some display"
    using e34 ftid3 nfm3 by (auto simp: paths_extend_def domIff)
  have c4: "display \<in> conflicted_files s4"
    using e34 c3 by (auto simp: paths_extend_def)
  show ?thesis
    using c3 c4 nfm3 nfm4 by (simp add: normalized_file_name_def)
qed


theorem conflicting_display_names_fall_back_witness:
  "\<exists>s1 s3. register_include_location ''/a/sub/x.h'' ''/a'' initial_tracker = Inr s1 \<and>
      normalized_file_name s1 ''/a/sub/x.h'' = ''sub/x.h'' \<and>
      register_include_location ''/b/sub/x.h'' ''/b'' s1 = Inr s3 \<and>
      normalized_file_name s3 ''/a/sub/x.h'' = ''/a/sub/x.h'' \<and>
      normalized_file_name s3 ''/b/sub/x.h'' = ''/b/sub/x.h'' \<and>
      ''sub/x.h'' \<in> conflicted_files (start_opt_pass ticking_clock None s3) \<and>
      normalized_file_name (start_opt_pass ticking_clock None s3) ''/a/sub/x.h'' = ''/a/sub/x.h''"
proof -
  have d1: "starts_with ''/a/sub/x.h'' ''/a''" "substr ''/a/sub/x.h'' (length ''/a'' + 1) = Inr ''sub/x.h''"
    by (simp_all add: starts_with_def substr_def)
  have d2: "starts_with ''/b/sub/x.h'' ''/b''" "substr ''/b/sub/x.h'' (length ''/b'' + 1) = Inr ''sub/x.h''"
    by (simp_all add: starts_with_def substr_def)
  have fresh1: "file_to_include_directory initial_tracker ''/a/sub/x.h'' = None"
    by (simp add: initial_tracker_def)
  from register_include_location_fresh[OF fresh1 d1] obtain s1 where
    s1: "register_include_location ''/a/sub/x.h'' ''/a'' initial_tracker = Inr s1"
      "file_to_include_directory s1 = (file_to_include_directory initial_tracker)(''/a/sub/x.h'' \<mapsto> ''/a'')"
      "normalized_files_map s1 = (normalized_files_map initial_tracker)(''/a/sub/x.h'' \<mapsto> ''sub/x.h'')"
      "conflicted_files s1 =
         (if ''sub/x.h'' \<in> normalized_files initial_tracker
          then insert ''sub/x.h'' (conflicted_files initial_tracker)
          else conflicted_files initial_tracker)"
    by blast
  have alone: "normalized_file_name s1 ''/a/sub/x.h'' = ''sub/x.h''"
    by (simp add: normalized_file_name_def s1(3,4) initial_tracker_def)
  have fresh2: "file_to_include_directory s1 ''/b/sub/x.h'' = None"
    by (simp add: s1(2) initial_tracker_def)
  from register_include_location_fresh[OF fresh2 d2] obtain s3 where
    s3: "register_include_location ''/b/sub/x.h'' ''/b'' s1 = Inr s3"
    by blast
  have later: "run ticking_clock [StartOptPass None] s3 = Inr (start_opt_pass ticking_clock None s3)"
    by simp
  have differ: "''/a/sub/x.h'' \<noteq> ''/b/sub/x.h''" by simp
  have run1: "run ticking_clock [] s1 = Inr s1" by simp
  from conflicting_display_names_fall_back
         [OF differ d1 d2 fresh1 s1(1) run1 fresh2 s3 later]
  show ?thesis using s1(1) alone s3 by blast
qed

section \<open>The preprocessing maps in reachable states\<close>

lemma map_of_None_iff_not_key: "map_of xs k = None \<longleftrightarrow> k \<notin> fst ` set xs"
  by (simp add: map_of_eq_None_iff)

lemma push_file_fields:
  "preprocess_end (push_file clk fname s) = preprocess_end s"
  "preprocessing_stack (push_file clk fname s) = pushed_name s fname # preprocessing_stack s"
  "clock_reads (push_file clk fname s) = Suc (clock_reads s)"
  "last_function_parsed_ts (push_file clk fname s) = last_function_parsed_ts s"
  "last_pass (push_file clk fname s) = last_pass s"
  "pass_events (push_file clk fname s) = pass_events s"
  "scope_events (push_file clk fname s) = scope_events s"
  "function_events (push_file clk fname s) = function_events s"
  "did_last_function_have_scope (push_file clk fname s) = did_last_function_have_scope s"
  "trace_buffer (push_file clk fname s) = trace_buffer s"
  by (simp_all add: push_file_def)

lemma push_file_keys:
  "fst ` set (preprocess_start (push_file clk fname s)) =
     insert (pushed_name s fname) (fst ` set (preprocess_start s))"
  by (auto simp: push_file_def map_of_None_iff_not_key)

lemma push_file_preprocess_inv:
  assumes "preprocess_inv s"
  shows "preprocess_inv (push_file clk fname s)"
proof -
  have d: "distinct (map fst (preprocess_start (push_file clk fname s)))"
    using assms by (auto simp: preprocess_inv_def push_file_def map_of_None_iff_not_key)
  show ?thesis
    using assms d unfolding preprocess_inv_def push_file_keys push_file_fields
    by auto
qed

lemma register_include_location_preprocess:
  assumes "register_include_location file_name dir_name s = Inr s'"
  shows "preprocess_start s' = preprocess_start s" "preprocess_end s' = preprocess_end s"
    "preprocessing_stack s' = preprocessing_stack s" "clock_reads s' = clock_reads s"
    "trace_buffer s' = trace_buffer s" "last_function_parsed_ts s' = last_function_parsed_ts s"
    "last_pass s' = last_pass s" "pass_events s' = pass_events s"
    "scope_events s' = scope_events s" "function_events s' = function_events s"
    "did_last_function_have_scope s' = did_last_function_have_scope s"
proof -
  from register_include_location_shape[OF assms] obtain a b c d where
    "s' = s\<lparr>file_to_include_directory := a, normalized_files_map := b,
            normalized_files := c, conflicted_files := d\<rparr>" by blast
  then show "preprocess_start s' = preprocess_start s" "preprocess_end s' = preprocess_end s"
    "preprocessing_stack s' = preprocessing_stack s" "clock_reads s' = clock_reads s"
    "trace_buffer s' = trace_buffer s" "last_function_parsed_ts s' = last_function_parsed_ts s"
    "last_pass s' = last_pass s" "pass_events s' = pass_events s"
    "scope_events s' = scope_events s" "function_events s' = function_events s"
    "did_last_function_have_scope s' = did_last_function_have_scope s"
    by simp_all
qed

lemma preprocess_inv_cong:
  assumes "preprocess_start t = preprocess_start s" "preprocess_end t = preprocess_end s"
    "preprocessing_stack t = preprocessing_stack s"
  shows "preprocess_inv t = preprocess_inv s"
  by (simp add: preprocess_inv_def assms)

lemma start_preprocess_file_preprocess_inv:
  assumes "preprocess_inv s" "start_preprocess_file clk file_name pfile s = Inr s'"
  shows "preprocess_inv s'"
  using assms(2)
proof (cases rule: start_preprocess_file_cases)
  case ignored
  with assms(1) show ?thesis by (simp add: preprocess_inv_def)
next
  case (pushed fname)
  with assms(1) show ?thesis by (simp add: push_file_preprocess_inv)
next
  case (registered fname reader dir fpath)
  from register_include_location_preprocess(1-3)[OF registered(7)]
  have "preprocess_inv s' = preprocess_inv (push_file clk fname s)"
    by (rule preprocess_inv_cong)
  with assms(1) show ?thesis by (simp add: push_file_preprocess_inv)
qed

lemma pop_preprocess_inv:
  assumes "preprocess_inv t" "preprocessing_stack t = f # below"
  shows "preprocess_inv (t\<lparr>clock_reads := n,
            preprocess_end := (if preprocess_end t f = None
                               then (preprocess_end t)(f \<mapsto> now) else preprocess_end t),
            preprocessing_stack := below, last_function_parsed_ts := c\<rparr>)"
  using assms unfolding preprocess_inv_def
  by (auto simp: domIff split: if_splits)

lemma end_preprocess_file_preprocess_inv:
  assumes "preprocess_inv s" "end_preprocess_file clk s = Inr s'"
  shows "preprocess_inv s'"
proof (cases "preprocessing_stack s")
  case Nil
  with assms(2) show ?thesis by (simp add: end_preprocess_file_empty)
next
  case (Cons f below)
  with assms(2) pop_preprocess_inv[OF assms(1) Cons, where n = "Suc (clock_reads s)"
      and now = "clk (clock_reads s)" and c = "int64 (clk (clock_reads s) + 3)"]
  show ?thesis
    by (auto simp: end_preprocess_file_nonempty)
qed

lemma finish_preprocessing_stage_preprocess_inv:
  assumes "preprocess_inv s"
  shows "\<exists>s'. finish_preprocessing_stage clk s = Inr s' \<and> preprocess_inv s' \<and>
           preprocessing_stack s' = []"
  using assms
  by (rule finish_preprocessing_stage_invariant) (rule pop_preprocess_inv)


lemma preprocess_trace_event_cong:
  assumes "normalized_files_map t = normalized_files_map s" "conflicted_files t = conflicted_files s"
  shows "preprocess_trace_event t = preprocess_trace_event s"
  by (intro ext) (simp add: preprocess_trace_event_def normalized_file_name_def assms split: option.splits)

lemma write_preprocessing_loop_closed:
  assumes "\<forall>(f, st) \<in> set items. f \<noteq> CIRCULAR_POISON_VALUE \<longrightarrow> preprocess_end s f \<noteq> None"
  shows "write_preprocessing_loop items s =
           Inr (s\<lparr>trace_buffer := trace_buffer s @
                  map (\<lambda>(f, st). preprocess_trace_event s f st (the (preprocess_end s f)))
                      (filter (\<lambda>(f, st). f \<noteq> CIRCULAR_POISON_VALUE) items)\<rparr>)"
  using assms
proof (induction items arbitrary: s)
  case Nil
  then show ?case by simp
next
  case (Cons item items)
  obtain f st where item: "item = (f, st)" by (cases item)
  show ?case
  proof (cases "f = CIRCULAR_POISON_VALUE")
    case True
    with Cons item show ?thesis by simp
  next
    case False
    with Cons.prems item obtain en where en: "preprocess_end s f = Some en" by auto
    let ?t = "add_event (preprocess_trace_event s f st en) s"
    have same: "preprocess_end ?t = preprocess_end s" "preprocess_trace_event ?t = preprocess_trace_event s"
      by (simp add: add_event_def, rule preprocess_trace_event_cong) (simp_all add: add_event_def)
    have "\<forall>(f, st) \<in> set items. f \<noteq> CIRCULAR_POISON_VALUE \<longrightarrow> preprocess_end ?t f \<noteq> None"
      using Cons.prems by (simp add: same)
    from Cons.IH[OF this] show ?thesis
      using False en item by (simp add: same) (simp add: add_event_def)
  qed
qed

lemma write_preprocessing_events_result:
  assumes "preprocess_inv s"
  shows "\<exists>s'. write_preprocessing_events clk s = Inr s' \<and> preprocess_inv s' \<and>
           preprocessing_stack s' = [] \<and> preprocess_start s' = preprocess_start s \<and>
           normalized_files_map s' = normalized_files_map s \<and>
           conflicted_files s' = conflicted_files s \<and>
           (\<forall>f e. preprocess_end s f = Some e \<longrightarrow> preprocess_end s' f = Some e) \<and>
           (\<forall>(f, st) \<in> set (emitted_files s'). preprocess_end s' f \<noteq> None) \<and>
           trace_buffer s' = trace_buffer s @
             map (\<lambda>(f, st). preprocess_trace_event s' f st (the (preprocess_end s' f)))
                 (emitted_files s')"
proof -
  let ?P = "\<lambda>t. preprocess_inv t \<and> preprocess_start t = preprocess_start s \<and>
      normalized_files_map t = normalized_files_map s \<and> conflicted_files t = conflicted_files s \<and>
      trace_buffer t = trace_buffer s \<and>
      (\<forall>f e. preprocess_end s f = Some e \<longrightarrow> preprocess_end t f = Some e)"
  have "\<exists>s1. finish_preprocessing_stage clk s = Inr s1 \<and> ?P s1 \<and> preprocessing_stack s1 = []"
  proof (rule finish_preprocessing_stage_invariant)
    show "?P s" using assms by simp
  next
    fix t f below
    assume "?P t" "preprocessing_stack t = f # below"
    then show "?P (t\<lparr>clock_reads := Suc (Suc (clock_reads t)),
                 preprocess_end := (if preprocess_end t f = None
                                    then (preprocess_end t)(f \<mapsto> clk (clock_reads t))
                                    else preprocess_end t),
                 preprocessing_stack := below,
                 last_function_parsed_ts := clk (Suc (clock_reads t))\<rparr>)"
      using pop_preprocess_inv[of t f below] by auto
  qed
  then obtain s1 where s1: "finish_preprocessing_stage clk s = Inr s1" "?P s1"
    "preprocessing_stack s1 = []" by blast
  have ends: "\<forall>(f, st) \<in> set (preprocess_start s1). f \<noteq> CIRCULAR_POISON_VALUE \<longrightarrow> preprocess_end s1 f \<noteq> None"
    using s1(2,3) unfolding preprocess_inv_def by (auto simp: domIff) force
  define new where "new = map (\<lambda>(f, st). preprocess_trace_event s1 f st (the (preprocess_end s1 f)))
                      (filter (\<lambda>(f, st). f \<noteq> CIRCULAR_POISON_VALUE) (preprocess_start s1))"
  define s' where "s' = s1\<lparr>trace_buffer := trace_buffer s1 @ new\<rparr>"
  have w: "write_preprocessing_events clk s = Inr s'"
    by (simp add: write_preprocessing_events_def s1(1) write_preprocessing_loop_closed[OF ends]
          s'_def new_def)
  have fields: "preprocess_start s' = preprocess_start s1" "preprocess_end s' = preprocess_end s1"
    "preprocessing_stack s' = preprocessing_stack s1"
    "normalized_files_map s' = normalized_files_map s1" "conflicted_files s' = conflicted_files s1"
    "trace_buffer s' = trace_buffer s1 @ new"
    by (simp_all add: s'_def)
  have ev: "preprocess_trace_event s' = preprocess_trace_event s1"
    by (rule preprocess_trace_event_cong) (simp_all add: fields)
  have "preprocess_inv s' = preprocess_inv s1"
    by (rule preprocess_inv_cong) (simp_all add: fields)
  with s1(2) have inv': "preprocess_inv s'" by blast
  have new': "new = map (\<lambda>(f, st). preprocess_trace_event s' f st (the (preprocess_end s' f)))
                 (emitted_files s')"
    by (simp add: new_def emitted_files_def ev fields)
  have ends': "\<forall>(f, st) \<in> set (emitted_files s'). preprocess_end s' f \<noteq> None"
    using ends by (auto simp: emitted_files_def fields)
  have tb: "trace_buffer s' = trace_buffer s @
             map (\<lambda>(f, st). preprocess_trace_event s' f st (the (preprocess_end s' f)))
                 (emitted_files s')"
    using s1(2) by (subst new'[symmetric]) (simp add: fields(6))
  show ?thesis
    apply (rule exI[of _ s'])
    apply (intro conjI w inv' ends' tb)
    using s1(2,3) by (simp_all add: fields)
qed

lemma step_preprocess_inv:
  assumes "preprocess_inv s" "step clk c s = Inr s'"
  shows "preprocess_inv s'"
proof (cases c)
  case (StartPreprocessFile file_name pfile)
  with assms show ?thesis by (auto intro: start_preprocess_file_preprocess_inv)
next
  case EndPreprocessFile
  with assms show ?thesis by (auto intro: end_preprocess_file_preprocess_inv)
next
  case FinishPreprocessingStage
  with assms finish_preprocessing_stage_preprocess_inv[OF assms(1), of clk] show ?thesis by auto
next
  case (StartOptPass pass)
  with assms have "preprocess_inv s' = preprocess_inv s"
    by (intro preprocess_inv_cong) (auto simp: start_opt_pass_eq)
  with assms show ?thesis by simp
next
  case (EndParseFunction info)
  with assms have "preprocess_inv s' = preprocess_inv s"
    by (intro preprocess_inv_cong) (auto simp: end_parse_function_frame)
  with assms show ?thesis by simp
next
  case WritePreprocessingEvents
  with assms write_preprocessing_events_result[OF assms(1), of clk] show ?thesis by auto
next
  case WriteOptPassEvents
  with assms have "write_opt_pass_loop (pass_events s) s = Inr s'"
    by (simp add: write_opt_pass_events_def)
  from write_opt_pass_loop_fields[OF this] obtain new where
    "s' = s\<lparr>trace_buffer := trace_buffer s @ new\<rparr>" by blast
  then have "preprocess_inv s' = preprocess_inv s"
    by (intro preprocess_inv_cong) simp_all
  with assms show ?thesis by simp
next
  case WriteAllScopes
  with assms have "preprocess_inv s' = preprocess_inv s"
    by (intro preprocess_inv_cong) (auto simp: write_all_scopes_eq)
  with assms show ?thesis by simp
next
  case WriteAllFunctions
  with assms have "preprocess_inv s' = preprocess_inv s"
    by (intro preprocess_inv_cong) (auto simp: write_all_functions_eq)
  with assms show ?thesis by simp
qed

lemma initial_preprocess_inv: "preprocess_inv initial_tracker"
  by (simp add: preprocess_inv_def initial_tracker_def)

lemma run_preprocess_inv:
  assumes "preprocess_inv s" "run clk cs s = Inr s'"
  shows "preprocess_inv s'"
  using assms(2,1) by (rule run_invariant) (rule step_preprocess_inv)

section \<open>Well-nested calls never fail\<close>

lemma starts_with_proper:
  assumes "starts_with file_name dir_name" "file_name \<noteq> dir_name"
  shows "length dir_name < length file_name"
proof (rule ccontr)
  assume "\<not> length dir_name < length file_name"
  with assms(1) have len: "length dir_name = length file_name"
    and pre: "take (length dir_name) file_name = dir_name"
    unfolding starts_with_def by linarith+
  have "take (length file_name) file_name = dir_name"
    using pre unfolding len .
  moreover have "take (length file_name) file_name = file_name" by (rule take_all) (rule order_refl)
  ultimately have "file_name = dir_name" by metis
  with assms(2) show False by (rule notE)
qed

lemma register_include_location_succeeds:
  assumes "file_name \<noteq> dir_name"
  shows "\<exists>s'. register_include_location file_name dir_name s = Inr s'"
  using starts_with_proper[OF _ assms]
  by (auto simp: register_include_location_def substr_def Let_def)

lemma start_preprocess_file_succeeds:
  assumes "resolves (StartPreprocessFile file_name pfile)"
  shows "\<exists>s'. start_preprocess_file clk file_name pfile s = Inr s' \<and>
           length (preprocessing_stack s') =
             (if ignored_file_name file_name then length (preprocessing_stack s)
              else Suc (length (preprocessing_stack s)))"
proof (cases "ignored_file_name file_name")
  case True
  then show ?thesis
    by (auto simp: ignored_file_name_def start_preprocess_file_def ns_from_start_def)
next
  case False
  then obtain fname where fname: "file_name = Some fname" "fname \<noteq> ''<command-line>''"
    by (auto simp: ignored_file_name_def)
  have reg: "\<exists>s'. register_include_location fpath dir (push_file clk fname s) = Inr s' \<and>
               length (preprocessing_stack s') = Suc (length (preprocessing_stack s))"
    if "fpath \<noteq> dir" for fpath dir
  proof -
    from register_include_location_succeeds[OF that, of "push_file clk fname s"]
    obtain s' where s': "register_include_location fpath dir (push_file clk fname s) = Inr s'"
      by blast
    from register_include_location_preprocess(3)[OF s'] s' show ?thesis
      by (simp add: push_file_fields)
  qed
  show ?thesis
    using False assms reg
    unfolding fname(1) start_preprocess_file_effect[OF fname(2)]
    by (cases pfile) (auto simp: push_file_fields split: option.splits)
qed

lemma step_succeeds:
  assumes "preprocess_inv s" "pending_passes_inv s" "resolves c"
    and "nesting (length (preprocessing_stack s)) (c # cs)"
  shows "\<exists>s'. step clk c s = Inr s' \<and> nesting (length (preprocessing_stack s')) cs"
proof (cases c)
  case (StartPreprocessFile file_name pfile)
  with assms(3,4) start_preprocess_file_succeeds[of file_name pfile clk s] show ?thesis
    by auto
next
  case EndPreprocessFile
  with assms(4) obtain f below where "preprocessing_stack s = f # below"
    by (cases "preprocessing_stack s") auto
  with EndPreprocessFile assms(4) show ?thesis
    by (simp add: end_preprocess_file_nonempty)
next
  case FinishPreprocessingStage
  with assms(4) finish_preprocessing_stage_shape[of clk s] show ?thesis by auto
next
  case (StartOptPass pass)
  with assms(4) show ?thesis by (simp add: start_opt_pass_eq)
next
  case (EndParseFunction info)
  with assms(4) show ?thesis by (simp add: end_parse_function_frame)
next
  case WritePreprocessingEvents
  with assms(4) write_preprocessing_events_result[OF assms(1), of clk] show ?thesis by auto
next
  case WriteOptPassEvents
  from pending_passes_map[OF assms(2)] obtain ps where "map ope_pass (pass_events s) = map Some ps"
    by blast
  from write_opt_pass_loop_buffer[OF this, of s] WriteOptPassEvents assms(4) show ?thesis
    by (simp add: write_opt_pass_events_def)
next
  case WriteAllScopes
  with assms(4) show ?thesis by (simp add: write_all_scopes_eq)
next
  case WriteAllFunctions
  with assms(4) show ?thesis by (simp add: write_all_functions_eq)
qed

lemma run_succeeds:
  assumes "preprocess_inv s" "pending_passes_inv s" "\<forall>c \<in> set cs. resolves c"
    and "nesting (length (preprocessing_stack s)) cs"
  shows "\<exists>s'. run clk cs s = Inr s'"
  using assms
proof (induction cs arbitrary: s)
  case Nil
  then show ?case by simp
next
  case (Cons c cs)
  from Cons.prems have "resolves c" by simp
  from step_succeeds[OF Cons.prems(1,2) this Cons.prems(4), of clk]
  obtain s1 where s1: "step clk c s = Inr s1" "nesting (length (preprocessing_stack s1)) cs"
    by blast
  have "preprocess_inv s1" "pending_passes_inv s1"
    using s1(1) Cons.prems(1,2) step_preprocess_inv step_pending_passes_inv by blast+
  from Cons.IH[OF this _ s1(2)] Cons.prems(3) s1(1) show ?case by simp
qed

section \<open>One call, case by case\<close>

lemma step_cases [consumes 1, case_names enter leave drain pass func emit_files emit_passes
    emit_scopes emit_functions]:
  assumes "step clk c s = Inr s'"
  obtains file_name pfile where "c = StartPreprocessFile file_name pfile"
      "start_preprocess_file clk file_name pfile s = Inr s'"
  | f below where "c = EndPreprocessFile" "preprocessing_stack s = f # below"
      "s' = s\<lparr>clock_reads := Suc (clock_reads s),
              preprocess_end := (if preprocess_end s f = None
                                 then (preprocess_end s)(f \<mapsto> clk (clock_reads s))
                                 else preprocess_end s),
              preprocessing_stack := below,
              last_function_parsed_ts := int64 (clk (clock_reads s) + 3)\<rparr>"
  | "c = FinishPreprocessingStage" "finish_preprocessing_stage clk s = Inr s'"
  | pass where "c = StartOptPass pass" "s' = start_opt_pass clk pass s"
  | info where "c = EndParseFunction info" "s' = end_parse_function clk info s"
  | "c = WritePreprocessingEvents" "write_preprocessing_events clk s = Inr s'"
  | ps where "c = WriteOptPassEvents" "map ope_pass (pass_events s) = map Some ps"
      "s' = s\<lparr>trace_buffer := trace_buffer s @ map2 pass_trace_event ps (map ope_ts (pass_events s))\<rparr>"
  | "c = WriteAllScopes"
      "s' = s\<lparr>trace_buffer := trace_buffer s @ map scope_trace_event (scope_events s)\<rparr>"
  | "c = WriteAllFunctions"
      "s' = s\<lparr>trace_buffer := trace_buffer s @ map (function_trace_event s) (function_events s)\<rparr>"
proof (cases c)
  case (StartPreprocessFile file_name pfile)
  with assms that(1) show ?thesis by simp
next
  case EndPreprocessFile
  with assms have e: "end_preprocess_file clk s = Inr s'" by simp
  then obtain f below where stack: "preprocessing_stack s = f # below"
    by (cases "preprocessing_stack s") (auto simp: end_preprocess_file_empty)
  from e show ?thesis
    unfolding end_preprocess_file_nonempty[OF stack]
    using that(2)[OF EndPreprocessFile stack] by simp
next
  case FinishPreprocessingStage
  with assms that(3) show ?thesis by simp
next
  case (StartOptPass pass)
  with assms that(4) show ?thesis by simp
next
  case (EndParseFunction info)
  with assms that(5) show ?thesis by simp
next
  case WritePreprocessingEvents
  with assms that(6) show ?thesis by simp
next
  case WriteOptPassEvents
  with assms have w: "write_opt_pass_loop (pass_events s) s = Inr s'"
    by (simp add: write_opt_pass_events_def)
  have "\<exists>ps. map ope_pass evs = map Some ps" if "write_opt_pass_loop evs t = Inr t'" for evs t t'
    using that
  proof (induction evs arbitrary: t)
    case Nil
    then show ?case by simp
  next
    case (Cons e evs)
    then obtain p where p: "ope_pass e = Some p"
      "write_opt_pass_loop evs (add_event (pass_trace_event p (ope_ts e)) t) = Inr t'"
      by (auto split: option.splits)
    from Cons.IH[OF p(2)] obtain ps where "map ope_pass evs = map Some ps" by blast
    with p(1) have "map ope_pass (e # evs) = map Some (p # ps)" by simp
    then show ?case by blast
  qed
  from this[OF w] obtain ps where ps: "map ope_pass (pass_events s) = map Some ps" by blast
  from write_opt_pass_loop_buffer[OF ps, of s] w
  have "s' = s\<lparr>trace_buffer := trace_buffer s @ map2 pass_trace_event ps (map ope_ts (pass_events s))\<rparr>"
    by simp
  with that(7) WriteOptPassEvents ps show ?thesis by blast
next
  case WriteAllScopes
  with assms that(8) show ?thesis by (simp add: write_all_scopes_eq)
next
  case WriteAllFunctions
  with assms that(9) show ?thesis by (simp add: write_all_functions_eq)
qed

section \<open>Which files have a start entry\<close>

lemma push_file_start_keys:
  "fst ` set (preprocess_start (push_file clk fname s)) - {CIRCULAR_POISON_VALUE} =
     insert fname (fst ` set (preprocess_start s)) - {CIRCULAR_POISON_VALUE}"
  unfolding push_file_keys
  by (auto simp: pushed_name_def circular_include_def map_of_None_iff_not_key split: if_splits)

lemma start_preprocess_file_start_keys:
  assumes "start_preprocess_file clk file_name pfile s = Inr s'"
  shows "fst ` set (preprocess_start s') - {CIRCULAR_POISON_VALUE} =
           (fst ` set (preprocess_start s) \<union> set (entered_file (StartPreprocessFile file_name pfile)))
             - {CIRCULAR_POISON_VALUE}"
  using assms
proof (cases rule: start_preprocess_file_cases)
  case ignored
  then show ?thesis by (auto simp: ignored_file_name_def)
next
  case (pushed fname)
  then show ?thesis by (simp add: push_file_start_keys)
next
  case (registered fname reader dir fpath)
  from register_include_location_preprocess(1)[OF registered(7)] registered(1,2) show ?thesis
    by (simp add: push_file_start_keys)
qed

lemma finish_preprocessing_stage_fields:
  assumes "finish_preprocessing_stage clk s = Inr s'"
  shows "preprocess_start s' = preprocess_start s" "trace_buffer s' = trace_buffer s"
    "pass_events s' = pass_events s" "last_pass s' = last_pass s"
    "scope_events s' = scope_events s" "function_events s' = function_events s"
    "did_last_function_have_scope s' = did_last_function_have_scope s"
    "preprocessing_stack s' = []"
proof -
  from finish_preprocessing_stage_shape[of clk s] assms obtain n pe c where
    "s' = s\<lparr>clock_reads := n, preprocess_end := pe, preprocessing_stack := [],
            last_function_parsed_ts := c\<rparr>" by auto
  then show "preprocess_start s' = preprocess_start s" "trace_buffer s' = trace_buffer s"
    "pass_events s' = pass_events s" "last_pass s' = last_pass s"
    "scope_events s' = scope_events s" "function_events s' = function_events s"
    "did_last_function_have_scope s' = did_last_function_have_scope s"
    "preprocessing_stack s' = []"
    by simp_all
qed

lemma write_preprocessing_events_fields:
  assumes "write_preprocessing_events clk s = Inr s'"
  shows "preprocess_start s' = preprocess_start s"
    "pass_events s' = pass_events s" "last_pass s' = last_pass s"
    "scope_events s' = scope_events s" "function_events s' = function_events s"
    "did_last_function_have_scope s' = did_last_function_have_scope s"
    "preprocessing_stack s' = []"
proof -
  from write_preprocessing_events_shape[OF assms] obtain n pe c new where
    "s' = s\<lparr>clock_reads := n, preprocess_end := pe, preprocessing_stack := [],
            last_function_parsed_ts := c, trace_buffer := trace_buffer s @ new\<rparr>" by blast
  then show "preprocess_start s' = preprocess_start s"
    "pass_events s' = pass_events s" "last_pass s' = last_pass s"
    "scope_events s' = scope_events s" "function_events s' = function_events s"
    "did_last_function_have_scope s' = did_last_function_have_scope s"
    "preprocessing_stack s' = []"
    by simp_all
qed

lemma step_start_keys:
  assumes "step clk c s = Inr s'"
  shows "fst ` set (preprocess_start s') - {CIRCULAR_POISON_VALUE} =
           (fst ` set (preprocess_start s) \<union> set (entered_file c)) - {CIRCULAR_POISON_VALUE}"
  using assms
proof (cases rule: step_cases)
  case (enter file_name pfile)
  then show ?thesis by (simp add: start_preprocess_file_start_keys)
next
  case (leave f below)
  then show ?thesis by simp
next
  case drain
  then show ?thesis by (simp add: finish_preprocessing_stage_fields)
next
  case (pass p)
  then show ?thesis by (simp add: start_opt_pass_eq)
next
  case (func info)
  then show ?thesis by (simp add: end_parse_function_frame)
next
  case emit_files
  then show ?thesis by (simp add: write_preprocessing_events_fields)
next
  case (emit_passes ps)
  then show ?thesis by simp
next
  case emit_scopes
  then show ?thesis by simp
next
  case emit_functions
  then show ?thesis by simp
qed

lemma run_start_keys:
  assumes "run clk cs s = Inr s'"
  shows "fst ` set (preprocess_start s') - {CIRCULAR_POISON_VALUE} =
           (fst ` set (preprocess_start s) \<union> set (entered_files cs)) - {CIRCULAR_POISON_VALUE}"
  using assms
proof (induction cs arbitrary: s)
  case Nil
  then show ?case by (simp add: entered_files_def)
next
  case (Cons c cs)
  then obtain s1 where s1: "step clk c s = Inr s1" "run clk cs s1 = Inr s'"
    by (auto split: sum.splits)
  have split: "(A \<union> (B \<union> C)) - P = ((A \<union> B) - P) \<union> (C - P)" for A B C P :: "string set"
    by blast
  have expand: "(K \<union> C) - P = (K - P) \<union> (C - P)" for K C P :: "string set"
    by blast
  have "fst ` set (preprocess_start s') - {CIRCULAR_POISON_VALUE} =
          (fst ` set (preprocess_start s1) - {CIRCULAR_POISON_VALUE}) \<union>
          (set (entered_files cs) - {CIRCULAR_POISON_VALUE})"
    using Cons.IH[OF s1(2)] by (simp only: expand)
  also have "\<dots> = ((fst ` set (preprocess_start s) \<union> set (entered_file c)) - {CIRCULAR_POISON_VALUE}) \<union>
          (set (entered_files cs) - {CIRCULAR_POISON_VALUE})"
    by (simp only: step_start_keys[OF s1(1)])
  also have "\<dots> = (fst ` set (preprocess_start s) \<union> (set (entered_file c) \<union> set (entered_files cs)))
          - {CIRCULAR_POISON_VALUE}"
    by (simp only: split)
  also have "set (entered_file c) \<union> set (entered_files cs) = set (entered_files (c # cs))"
    by (simp add: entered_files_def)
  finally show ?case .
qed

section \<open>Recorded times under a clock that never goes back\<close>

lemma preprocess_times_later:
  assumes "preprocess_times clk s" "mono clk"
    and "preprocess_start t = preprocess_start s" "preprocess_end t = preprocess_end s"
    and "clock_reads s \<le> clock_reads t"
  shows "preprocess_times clk t"
proof -
  have "clk (clock_reads s) \<le> clk (clock_reads t)"
    using assms(2,5) by (rule monoD)
  with assms(1) show ?thesis
    unfolding preprocess_times_def assms(3,4) by fastforce
qed

lemma push_file_preprocess_times:
  assumes "preprocess_times clk s" "mono clk" "preprocess_inv s"
  shows "preprocess_times clk (push_file clk fname s)"
proof -
  have le: "clk (clock_reads s) \<le> clk (Suc (clock_reads s))"
    using assms(2) by (simp add: monoD)
  have fresh: "preprocess_end s (pushed_name s fname) = None"
    if "map_of (preprocess_start s) (pushed_name s fname) = None"
    using that assms(3) unfolding preprocess_inv_def map_of_None_iff_not_key by (auto simp: domIff)
  show ?thesis
  proof (cases "map_of (preprocess_start s) (pushed_name s fname) = None")
    case True
    have "\<forall>(f, st) \<in> set (preprocess_start s @ [(pushed_name s fname, clk (clock_reads s))]).
            st \<le> clk (Suc (clock_reads s)) \<and> (\<forall>e. preprocess_end s f = Some e \<longrightarrow> st \<le> e)"
      using assms(1) le fresh[OF True] unfolding preprocess_times_def by fastforce
    then show ?thesis
      using True by (simp add: preprocess_times_def push_file_def)
  next
    case False
    have "\<forall>(f, st) \<in> set (preprocess_start s).
            st \<le> clk (Suc (clock_reads s)) \<and> (\<forall>e. preprocess_end s f = Some e \<longrightarrow> st \<le> e)"
      using assms(1) le unfolding preprocess_times_def by fastforce
    moreover from False obtain y where "map_of (preprocess_start s) (pushed_name s fname) = Some y"
      by blast
    ultimately show ?thesis
      by (simp add: preprocess_times_def push_file_def)
  qed
qed

lemma pop_preprocess_times:
  assumes "preprocess_times clk t" "mono clk" "clock_reads t \<le> n"
  shows "preprocess_times clk
           (t\<lparr>clock_reads := n,
              preprocess_end := (if preprocess_end t f = None
                                 then (preprocess_end t)(f \<mapsto> clk (clock_reads t))
                                 else preprocess_end t),
              preprocessing_stack := below, last_function_parsed_ts := c\<rparr>)"
proof -
  have "clk (clock_reads t) \<le> clk n"
    using assms(2,3) by (rule monoD)
  with assms(1) show ?thesis
    unfolding preprocess_times_def by (fastforce split: if_splits)
qed

lemma start_preprocess_file_preprocess_times:
  assumes "preprocess_times clk s" "mono clk" "preprocess_inv s"
    and "start_preprocess_file clk file_name pfile s = Inr s'"
  shows "preprocess_times clk s'"
  using assms(4)
proof (cases rule: start_preprocess_file_cases)
  case ignored
  with assms(1,2) show ?thesis by (auto intro: preprocess_times_later)
next
  case (pushed fname)
  with assms(1-3) show ?thesis by (simp add: push_file_preprocess_times)
next
  case (registered fname reader dir fpath)
  note same = register_include_location_preprocess(1,2,4)[OF registered(7)]
  have "clock_reads (push_file clk fname s) \<le> clock_reads s'"
    by (simp add: same(3))
  with push_file_preprocess_times[OF assms(1-3), of fname] assms(2) same(1,2)
  show ?thesis by (rule preprocess_times_later)
qed

lemma finish_preprocessing_stage_preprocess_times:
  assumes "preprocess_times clk s" "mono clk" "finish_preprocessing_stage clk s = Inr s'"
  shows "preprocess_times clk s'"
proof -
  have "\<exists>t. finish_preprocessing_stage clk s = Inr t \<and> preprocess_times clk t \<and>
          preprocessing_stack t = []"
    using assms(1)
  proof (rule finish_preprocessing_stage_invariant)
    fix t f below
    assume "preprocess_times clk t"
    then show "preprocess_times clk
           (t\<lparr>clock_reads := Suc (Suc (clock_reads t)),
              preprocess_end := (if preprocess_end t f = None
                                 then (preprocess_end t)(f \<mapsto> clk (clock_reads t))
                                 else preprocess_end t),
              preprocessing_stack := below, last_function_parsed_ts := clk (Suc (clock_reads t))\<rparr>)"
      using assms(2) by (rule pop_preprocess_times) simp
  qed
  with assms(3) show ?thesis by auto
qed

lemma write_preprocessing_events_preprocess_times:
  assumes "preprocess_times clk s" "mono clk" "write_preprocessing_events clk s = Inr s'"
  shows "preprocess_times clk s'"
proof -
  from assms(3) obtain s1 where s1: "finish_preprocessing_stage clk s = Inr s1"
    "write_preprocessing_loop (preprocess_start s1) s1 = Inr s'"
    by (auto simp: write_preprocessing_events_def split: sum.splits)
  from write_preprocessing_loop_fields[OF s1(2)] obtain new where
    s': "s' = s1\<lparr>trace_buffer := trace_buffer s1 @ new\<rparr>" by blast
  from finish_preprocessing_stage_preprocess_times[OF assms(1,2) s1(1)] assms(2)
  show ?thesis by (rule preprocess_times_later) (simp_all add: s')
qed

lemma step_preprocess_times:
  assumes "preprocess_times clk s" "mono clk" "preprocess_inv s" "step clk c s = Inr s'"
  shows "preprocess_times clk s'"
  using assms(4)
proof (cases rule: step_cases)
  case (enter file_name pfile)
  with assms(1-3) show ?thesis by (auto intro: start_preprocess_file_preprocess_times)
next
  case (leave f below)
  have "clock_reads s \<le> Suc (clock_reads s)" by simp
  from pop_preprocess_times[OF assms(1,2) this, where f = f and below = below
      and c = "int64 (clk (clock_reads s) + 3)"] leave(3)
  show ?thesis by simp
next
  case drain
  with assms(1,2) show ?thesis by (auto intro: finish_preprocessing_stage_preprocess_times)
next
  case (pass p)
  from assms(1,2) show ?thesis
    by (rule preprocess_times_later) (simp_all add: pass start_opt_pass_eq)
next
  case (func info)
  from assms(1,2) show ?thesis
    by (rule preprocess_times_later) (simp_all add: func end_parse_function_frame end_parse_function_cursor)
next
  case emit_files
  with assms(1,2) show ?thesis by (auto intro: write_preprocessing_events_preprocess_times)
next
  case (emit_passes ps)
  from assms(1,2) show ?thesis
    by (rule preprocess_times_later) (simp_all add: emit_passes)
next
  case emit_scopes
  from assms(1,2) show ?thesis
    by (rule preprocess_times_later) (simp_all add: emit_scopes)
next
  case emit_functions
  from assms(1,2) show ?thesis
    by (rule preprocess_times_later) (simp_all add: emit_functions)
qed

lemma run_preprocess_invs:
  assumes "mono clk" "run clk cs initial_tracker = Inr s"
  shows "preprocess_inv s \<and> preprocess_times clk s \<and> pending_passes_inv s"
  using assms(2)
proof (rule run_invariant)
  show "preprocess_inv initial_tracker \<and> preprocess_times clk initial_tracker \<and>
        pending_passes_inv initial_tracker"
    by (simp add: initial_preprocess_inv)
       (simp add: preprocess_times_def pending_passes_inv_def initial_tracker_def)
next
  fix c t t'
  assume "preprocess_inv t \<and> preprocess_times clk t \<and> pending_passes_inv t" "step clk c t = Inr t'"
  then show "preprocess_inv t' \<and> preprocess_times clk t' \<and> pending_passes_inv t'"
    using step_preprocess_inv step_preprocess_times[OF _ assms(1)] step_pending_passes_inv
    by blast
qed

section \<open>The PREPROCESS events of a run\<close>

lemma emitted_files_length:
  assumes "distinct (map fst (preprocess_start s))"
  shows "length (emitted_files s) = card (fst ` set (preprocess_start s) - {CIRCULAR_POISON_VALUE})"
proof -
  have keys: "map fst (emitted_files s) =
                filter (\<lambda>f. f \<noteq> CIRCULAR_POISON_VALUE) (map fst (preprocess_start s))"
  proof -
    have "(\<lambda>(f, st). f \<noteq> CIRCULAR_POISON_VALUE) = (\<lambda>x :: string \<times> int. fst x \<noteq> CIRCULAR_POISON_VALUE)"
      by (simp add: fun_eq_iff)
    then show ?thesis
      by (simp add: emitted_files_def filter_map comp_def)
  qed
  have "distinct (map fst (emitted_files s))"
    unfolding keys using assms by (rule distinct_filter)
  then have "length (map fst (emitted_files s)) = card (set (map fst (emitted_files s)))"
    by (simp only: distinct_card)
  also have "set (map fst (emitted_files s)) = fst ` set (preprocess_start s) - {CIRCULAR_POISON_VALUE}"
    unfolding keys by auto
  finally show ?thesis by simp
qed

lemma entered_files_count:
  "length (remdups (filter (\<lambda>f. f \<noteq> CIRCULAR_POISON_VALUE) (entered_files cs))) =
     card (set (entered_files cs) - {CIRCULAR_POISON_VALUE})"
proof -
  have "set (filter (\<lambda>f. f \<noteq> CIRCULAR_POISON_VALUE) (entered_files cs)) =
          set (entered_files cs) - {CIRCULAR_POISON_VALUE}"
    by auto
  then show ?thesis by (simp only: length_remdups_card_conv)
qed

lemma emitted_events_in_order:
  assumes "preprocess_times clk s"
    and "\<forall>(f, st) \<in> set (emitted_files s). preprocess_end s f \<noteq> None"
    and "e \<in> set (map (\<lambda>(f, st). preprocess_trace_event s f st (the (preprocess_end s f)))
                      (emitted_files s))"
  shows "ev_category e = PREPROCESS \<and> span_ok (ev_ts e)"
proof -
  from assms(3) obtain f st where item: "(f, st) \<in> set (emitted_files s)"
    "e = preprocess_trace_event s f st (the (preprocess_end s f))"
    by auto
  from item(1) assms(2) obtain en where en: "preprocess_end s f = Some en" by fastforce
  from item(1) have "(f, st) \<in> set (preprocess_start s)"
    by (simp add: emitted_files_def)
  with assms(1) en have "st \<le> en"
    unfolding preprocess_times_def by fastforce
  then show ?thesis
    by (simp add: item(2) en preprocess_trace_event_def span_ok_def)
qed

text \<open>
  What the emission gives after any well-nested sequence of calls from the initial state.
\<close>

lemma run_then_write_preprocessing_events:
  assumes "mono clk" "well_nested calls" "\<forall>c \<in> set calls. resolves c"
  shows "\<exists>s s'. run clk calls initial_tracker = Inr s \<and>
           write_preprocessing_events clk s = Inr s' \<and>
           preprocess_inv s' \<and> preprocess_times clk s' \<and>
           preprocess_start s' = preprocess_start s \<and>
           (\<forall>(f, st) \<in> set (emitted_files s'). preprocess_end s' f \<noteq> None) \<and>
           trace_buffer s' = trace_buffer s @
             map (\<lambda>(f, st). preprocess_trace_event s' f st (the (preprocess_end s' f)))
                 (emitted_files s')"
proof -
  have "nesting (length (preprocessing_stack initial_tracker)) calls"
    using assms(2) by (simp add: well_nested_def initial_tracker_def)
  moreover have "pending_passes_inv initial_tracker"
    by (simp add: pending_passes_inv_def initial_tracker_def)
  ultimately obtain s where s: "run clk calls initial_tracker = Inr s"
    using run_succeeds[OF initial_preprocess_inv _ assms(3)] by blast
  from run_preprocess_invs[OF assms(1) s] have inv: "preprocess_inv s" "preprocess_times clk s"
    by simp_all
  from write_preprocessing_events_result[OF inv(1), of clk] obtain s' where
    s': "write_preprocessing_events clk s = Inr s'" "preprocess_inv s'"
      "preprocess_start s' = preprocess_start s"
      "\<forall>(f, st) \<in> set (emitted_files s'). preprocess_end s' f \<noteq> None"
      "trace_buffer s' = trace_buffer s @
             map (\<lambda>(f, st). preprocess_trace_event s' f st (the (preprocess_end s' f)))
                 (emitted_files s')"
    by blast
  have "preprocess_times clk s'"
    using inv(2) assms(1) s'(1) by (rule write_preprocessing_events_preprocess_times)
  with s s' show ?thesis by blast
qed

text \<open>
  Claim C4. After every well-nested sequence of calls from the initial state, under a
  clock that never goes back, \<open>write_preprocessing_events\<close> succeeds and adds as many
  events as there are distinct file names entered other than the sentinel (a null name
  and the name of the command line are not entered at all); each is a PREPROCESS event
  that does not end before it starts.
\<close>

theorem well_nested_preprocess_event_count:
  assumes "mono clk" and "well_nested calls" and "\<forall>c \<in> set calls. resolves c"
  shows "\<exists>s s' new. run clk calls initial_tracker = Inr s \<and>
           write_preprocessing_events clk s = Inr s' \<and>
           trace_buffer s' = trace_buffer s @ new \<and>
           length new =
             length (remdups (filter (\<lambda>f. f \<noteq> CIRCULAR_POISON_VALUE) (entered_files calls))) \<and>
           (\<forall>e \<in> set new. ev_category e = PREPROCESS \<and> span_ok (ev_ts e))"
proof -
  from run_then_write_preprocessing_events[OF assms] obtain s s' where
    r: "run clk calls initial_tracker = Inr s" "write_preprocessing_events clk s = Inr s'"
      "preprocess_inv s'" "preprocess_times clk s'" "preprocess_start s' = preprocess_start s"
      "\<forall>(f, st) \<in> set (emitted_files s'). preprocess_end s' f \<noteq> None"
      "trace_buffer s' = trace_buffer s @
             map (\<lambda>(f, st). preprocess_trace_event s' f st (the (preprocess_end s' f)))
                 (emitted_files s')"
    by blast
  define new where
    "new = map (\<lambda>(f, st). preprocess_trace_event s' f st (the (preprocess_end s' f))) (emitted_files s')"
  have "distinct (map fst (preprocess_start s'))"
    using r(3) by (simp add: preprocess_inv_def)
  then have "length new = card (fst ` set (preprocess_start s') - {CIRCULAR_POISON_VALUE})"
    by (simp add: new_def emitted_files_length)
  also have "\<dots> = card (set (entered_files calls) - {CIRCULAR_POISON_VALUE})"
    unfolding r(5) run_start_keys[OF r(1)] by (simp add: initial_tracker_def)
  finally have count: "length new =
      length (remdups (filter (\<lambda>f. f \<noteq> CIRCULAR_POISON_VALUE) (entered_files calls)))"
    by (simp only: entered_files_count)
  have ok: "\<forall>e \<in> set new. ev_category e = PREPROCESS \<and> span_ok (ev_ts e)"
    unfolding new_def using emitted_events_in_order[OF r(4,6)] by blast
  from r(1,2) r(7)[folded new_def] count ok show ?thesis by blast
qed


theorem well_nested_preprocess_event_count_witness:
  "mono ticking_clock \<and>
   well_nested
     [StartPreprocessFile (Some ''a.cc'') None,
      StartPreprocessFile (Some ''/inc/b.h'') (Some \<lparr>real_dir_name = Some ''/inc'', real_file_name = Some ''/inc/b.h''\<rparr>),
      EndPreprocessFile,
      StartPreprocessFile (Some ''a.cc'') None,
      EndPreprocessFile, EndPreprocessFile] \<and>
   (\<exists>s s' new.
      run ticking_clock
        [StartPreprocessFile (Some ''a.cc'') None,
         StartPreprocessFile (Some ''/inc/b.h'') (Some \<lparr>real_dir_name = Some ''/inc'', real_file_name = Some ''/inc/b.h''\<rparr>),
         EndPreprocessFile,
         StartPreprocessFile (Some ''a.cc'') None,
         EndPreprocessFile, EndPreprocessFile] initial_tracker = Inr s \<and>
      write_preprocessing_events ticking_clock s = Inr s' \<and>
      trace_buffer s' = trace_buffer s @ new \<and> length new = 2 \<and>
      (\<forall>e \<in> set new. ev_category e = PREPROCESS \<and> span_ok (ev_ts e)))"
proof -
  let ?calls = "[StartPreprocessFile (Some ''a.cc'') None,
      StartPreprocessFile (Some ''/inc/b.h'') (Some \<lparr>real_dir_name = Some ''/inc'', real_file_name = Some ''/inc/b.h''\<rparr>),
      EndPreprocessFile,
      StartPreprocessFile (Some ''a.cc'') None,
      EndPreprocessFile, EndPreprocessFile]"
  have m: "mono ticking_clock"
    by (simp add: mono_def ticking_clock_def)
  have n: "well_nested ?calls"
    by (simp add: well_nested_def ignored_file_name_def)
  have r: "\<forall>c \<in> set ?calls. resolves c"
    by simp
  have count: "length (remdups (filter (\<lambda>f. f \<noteq> CIRCULAR_POISON_VALUE) (entered_files ?calls))) = 2"
    by (simp add: entered_files_def CIRCULAR_POISON_VALUE_def)
  from well_nested_preprocess_event_count[OF m n r] show ?thesis
    unfolding count using m n by blast
qed

section \<open>Circular and repeated includes\<close>

lemma emitted_events_of_entries:
  assumes "\<forall>(f, st) \<in> set (emitted_files s). preprocess_end s f \<noteq> None"
  shows "list_all2 (event_of_entry s) (emitted_files s)
           (map (\<lambda>(f, st). preprocess_trace_event s f st (the (preprocess_end s f))) (emitted_files s))"
proof -
  have "event_of_entry s x ((\<lambda>(f, st). preprocess_trace_event s f st (the (preprocess_end s f))) x)"
    if "x \<in> set (emitted_files s)" for x
  proof -
    obtain f st where x: "x = (f, st)" by (cases x)
    with that assms obtain en where "preprocess_end s f = Some en" by fastforce
    then show ?thesis by (simp add: event_of_entry_def preprocess_trace_event_def x)
  qed
  then show ?thesis
    by (simp add: list_all2_map2 list_all2_same)
qed

lemma emitted_files_keys:
  assumes "preprocess_inv s"
  shows "distinct (map fst (emitted_files s))"
    and "CIRCULAR_POISON_VALUE \<notin> fst ` set (emitted_files s)"
proof -
  have "distinct (map fst (preprocess_start s))"
    using assms by (simp add: preprocess_inv_def)
  then show "distinct (map fst (emitted_files s))"
    unfolding emitted_files_def by (rule distinct_map_filter)
  show "CIRCULAR_POISON_VALUE \<notin> fst ` set (emitted_files s)"
    by (auto simp: emitted_files_def)
qed

lemma circular_include_on_stack:
  assumes "preprocess_inv s" "circular_include s fname"
  shows "fname \<in> set (preprocessing_stack s)"
proof -
  from assms(2) have "fname \<in> fst ` set (preprocess_start s)" "fname \<notin> dom (preprocess_end s)"
    by (simp_all add: circular_include_def map_of_None_iff_not_key domIff)
  with assms(1) show ?thesis
    unfolding preprocess_inv_def by blast
qed

lemma start_preprocess_file_pushes:
  assumes "fname \<noteq> ''<command-line>''" "resolves (StartPreprocessFile (Some fname) pfile)"
  shows "\<exists>t. start_preprocess_file clk (Some fname) pfile s = Inr t \<and>
           preprocessing_stack t =
             (if circular_include s fname then CIRCULAR_POISON_VALUE else fname) # preprocessing_stack s"
proof -
  from start_preprocess_file_succeeds[OF assms(2), of clk s] obtain t where
    t: "start_preprocess_file clk (Some fname) pfile s = Inr t" by blast
  from t have "preprocessing_stack t = pushed_name s fname # preprocessing_stack s"
  proof (cases rule: start_preprocess_file_cases)
    case ignored
    with assms(1) show ?thesis by (simp add: ignored_file_name_def)
  next
    case (pushed g)
    then show ?thesis by (simp add: push_file_fields)
  next
    case (registered g reader dir fpath)
    from register_include_location_preprocess(3)[OF registered(7)] registered(1)
    show ?thesis by (simp add: push_file_fields)
  qed
  with t show ?thesis by (simp add: pushed_name_def)
qed

text \<open>
  Claim C5, as amended. After every well-nested sequence of calls every operation has
  returned without failure, and in the state reached: entering a file whose first inclusion is still open (it has a recorded start
  and no recorded end, and then it is on the stack) pushes the sentinel in its place,
  entering any other file pushes the file itself; the emission succeeds, its events
  correspond one to one to the start entries other than the sentinel's, and no two of
  these entries are for the same file.
\<close>

theorem circular_include_is_contained:
  assumes "well_nested calls" and "\<forall>c \<in> set calls. resolves c"
  shows "\<exists>s s' new. run clk calls initial_tracker = Inr s \<and>
           (\<forall>fname pfile. fname \<noteq> ''<command-line>'' \<and>
                resolves (StartPreprocessFile (Some fname) pfile) \<longrightarrow>
              (\<exists>t. start_preprocess_file clk (Some fname) pfile s = Inr t \<and>
                 preprocessing_stack t =
                   (if circular_include s fname then CIRCULAR_POISON_VALUE else fname)
                     # preprocessing_stack s)) \<and>
           (\<forall>fname. circular_include s fname \<longrightarrow> fname \<in> set (preprocessing_stack s)) \<and>
           write_preprocessing_events clk s = Inr s' \<and>
           trace_buffer s' = trace_buffer s @ new \<and>
           list_all2 (event_of_entry s') (emitted_files s') new \<and>
           distinct (map fst (emitted_files s')) \<and>
           CIRCULAR_POISON_VALUE \<notin> fst ` set (emitted_files s')"
proof -
  have "nesting (length (preprocessing_stack initial_tracker)) calls"
    using assms(1) by (simp add: well_nested_def initial_tracker_def)
  moreover have "pending_passes_inv initial_tracker"
    by (simp add: pending_passes_inv_def initial_tracker_def)
  ultimately obtain s where s: "run clk calls initial_tracker = Inr s"
    using run_succeeds[OF initial_preprocess_inv _ assms(2)] by blast
  have inv: "preprocess_inv s"
    using initial_preprocess_inv s by (rule run_preprocess_inv)
  from write_preprocessing_events_result[OF inv, of clk] s obtain s' where
    r: "run clk calls initial_tracker = Inr s" "write_preprocessing_events clk s = Inr s'"
      "preprocess_inv s'"
      "\<forall>(f, st) \<in> set (emitted_files s'). preprocess_end s' f \<noteq> None"
      "trace_buffer s' = trace_buffer s @
             map (\<lambda>(f, st). preprocess_trace_event s' f st (the (preprocess_end s' f)))
                 (emitted_files s')"
    by blast
  have push: "\<forall>fname pfile. fname \<noteq> ''<command-line>'' \<and>
                resolves (StartPreprocessFile (Some fname) pfile) \<longrightarrow>
              (\<exists>t. start_preprocess_file clk (Some fname) pfile s = Inr t \<and>
                 preprocessing_stack t =
                   (if circular_include s fname then CIRCULAR_POISON_VALUE else fname)
                     # preprocessing_stack s)"
    using start_preprocess_file_pushes by blast
  have open_file: "\<forall>fname. circular_include s fname \<longrightarrow> fname \<in> set (preprocessing_stack s)"
    using circular_include_on_stack[OF inv] by blast
  from r(1) push open_file r(2) r(5) emitted_events_of_entries[OF r(4)] emitted_files_keys[OF r(3)]
  show ?thesis by blast
qed


theorem circular_include_is_contained_witness:
  "well_nested [StartPreprocessFile (Some ''a.h'') None, StartPreprocessFile (Some ''a.h'') None] \<and>
   map_sum id preprocessing_stack
     (run ticking_clock [StartPreprocessFile (Some ''a.h'') None, StartPreprocessFile (Some ''a.h'') None]
        initial_tracker) = Inr [CIRCULAR_POISON_VALUE, ''a.h''] \<and>
   (\<exists>s s' new.
      run ticking_clock [StartPreprocessFile (Some ''a.h'') None, StartPreprocessFile (Some ''a.h'') None]
        initial_tracker = Inr s \<and>
      (\<forall>fname pfile. fname \<noteq> ''<command-line>'' \<and>
                resolves (StartPreprocessFile (Some fname) pfile) \<longrightarrow>
              (\<exists>t. start_preprocess_file ticking_clock (Some fname) pfile s = Inr t \<and>
                 preprocessing_stack t =
                   (if circular_include s fname then CIRCULAR_POISON_VALUE else fname)
                     # preprocessing_stack s)) \<and>
      (\<forall>fname. circular_include s fname \<longrightarrow> fname \<in> set (preprocessing_stack s)) \<and>
      write_preprocessing_events ticking_clock s = Inr s' \<and>
      trace_buffer s' = trace_buffer s @ new \<and>
      list_all2 (event_of_entry s') (emitted_files s') new \<and>
      distinct (map fst (emitted_files s')) \<and>
      CIRCULAR_POISON_VALUE \<notin> fst ` set (emitted_files s'))"
proof -
  let ?calls = "[StartPreprocessFile (Some ''a.h'') None, StartPreprocessFile (Some ''a.h'') None]"
  have n: "well_nested ?calls"
    by (simp add: well_nested_def ignored_file_name_def)
  have r: "\<forall>c \<in> set ?calls. resolves c"
    by simp
  have stack: "map_sum id preprocessing_stack (run ticking_clock ?calls initial_tracker) =
                 Inr [CIRCULAR_POISON_VALUE, ''a.h'']"
    by (simp add: start_preprocess_file_effect push_file_def pushed_name_def circular_include_def
          initial_tracker_def CIRCULAR_POISON_VALUE_def)
  from circular_include_is_contained[OF n r, of ticking_clock] n stack show ?thesis
    by blast
qed

text \<open>
  Claim C5 as stated fails for a repeated include: after \<open>a.h\<close> has been entered and left
  once, it is entered again and, while it is open on the stack, entered a third time; the
  third entry pushes \<open>a.h\<close> itself, not the sentinel.
\<close>

theorem repeated_include_pushes_no_sentinel:
  "map_sum id preprocessing_stack
     (run ticking_clock
        [StartPreprocessFile (Some ''a.h'') None, EndPreprocessFile,
         StartPreprocessFile (Some ''a.h'') None] initial_tracker) = Inr [''a.h''] \<and>
   map_sum id preprocessing_stack
     (run ticking_clock
        [StartPreprocessFile (Some ''a.h'') None, EndPreprocessFile,
         StartPreprocessFile (Some ''a.h'') None,
         StartPreprocessFile (Some ''a.h'') None] initial_tracker) = Inr [''a.h'', ''a.h'']"
  by (simp add: start_preprocess_file_effect push_file_def pushed_name_def circular_include_def
        end_preprocess_file_def ns_from_start_def initial_tracker_def CIRCULAR_POISON_VALUE_def)

section \<open>Recorded starts and ends are never overwritten\<close>

lemma records_kept_refl: "records_kept s s"
  by (simp add: records_kept_def)

lemma records_kept_trans: "records_kept s t \<Longrightarrow> records_kept t u \<Longrightarrow> records_kept s u"
  by (simp add: records_kept_def)

lemma records_kept_same:
  assumes "preprocess_start t = preprocess_start s" "preprocess_end t = preprocess_end s"
  shows "records_kept s t"
  by (simp add: records_kept_def assms)

lemma push_file_records_kept: "records_kept s (push_file clk fname s)"
  by (auto simp: records_kept_def push_file_def)

lemma pop_records_kept:
  "records_kept t
     (t\<lparr>clock_reads := n,
        preprocess_end := (if preprocess_end t f = None
                           then (preprocess_end t)(f \<mapsto> now) else preprocess_end t),
        preprocessing_stack := below, last_function_parsed_ts := c\<rparr>)"
  by (auto simp: records_kept_def)

lemma start_preprocess_file_records_kept:
  assumes "start_preprocess_file clk file_name pfile s = Inr s'"
  shows "records_kept s s'"
  using assms
proof (cases rule: start_preprocess_file_cases)
  case ignored
  then show ?thesis by (simp add: records_kept_def)
next
  case (pushed fname)
  then show ?thesis by (simp add: push_file_records_kept)
next
  case (registered fname reader dir fpath)
  from register_include_location_preprocess(1,2)[OF registered(7)]
  have "records_kept (push_file clk fname s) s'" by (rule records_kept_same)
  with push_file_records_kept show ?thesis by (rule records_kept_trans)
qed

lemma finish_preprocessing_stage_records_kept:
  assumes "finish_preprocessing_stage clk s = Inr s'"
  shows "records_kept s s'"
proof -
  have "\<exists>t. finish_preprocessing_stage clk s = Inr t \<and> records_kept s t \<and>
          preprocessing_stack t = []"
  proof (rule finish_preprocessing_stage_invariant)
    show "records_kept s s" by (rule records_kept_refl)
  next
    fix t f below
    assume "records_kept s t"
    then show "records_kept s
           (t\<lparr>clock_reads := Suc (Suc (clock_reads t)),
              preprocess_end := (if preprocess_end t f = None
                                 then (preprocess_end t)(f \<mapsto> clk (clock_reads t))
                                 else preprocess_end t),
              preprocessing_stack := below, last_function_parsed_ts := clk (Suc (clock_reads t))\<rparr>)"
      using pop_records_kept by (rule records_kept_trans)
  qed
  with assms show ?thesis by auto
qed

lemma write_preprocessing_events_records_kept:
  assumes "write_preprocessing_events clk s = Inr s'"
  shows "records_kept s s'"
proof -
  from assms obtain s1 where s1: "finish_preprocessing_stage clk s = Inr s1"
    "write_preprocessing_loop (preprocess_start s1) s1 = Inr s'"
    by (auto simp: write_preprocessing_events_def split: sum.splits)
  from write_preprocessing_loop_fields[OF s1(2)] obtain new where
    "s' = s1\<lparr>trace_buffer := trace_buffer s1 @ new\<rparr>" by blast
  then have "records_kept s1 s'" by (simp add: records_kept_def)
  with finish_preprocessing_stage_records_kept[OF s1(1)] show ?thesis
    by (rule records_kept_trans)
qed

lemma step_records_kept:
  assumes "step clk c s = Inr s'"
  shows "records_kept s s'"
  using assms
proof (cases rule: step_cases)
  case (enter file_name pfile)
  then show ?thesis by (simp add: start_preprocess_file_records_kept)
next
  case (leave f below)
  then show ?thesis by (simp add: pop_records_kept)
next
  case drain
  then show ?thesis by (simp add: finish_preprocessing_stage_records_kept)
next
  case (pass p)
  then show ?thesis by (simp add: records_kept_def start_opt_pass_eq)
next
  case (func info)
  then show ?thesis by (simp add: records_kept_def end_parse_function_frame)
next
  case emit_files
  then show ?thesis by (simp add: write_preprocessing_events_records_kept)
next
  case (emit_passes ps)
  then show ?thesis by (simp add: records_kept_def)
next
  case emit_scopes
  then show ?thesis by (simp add: records_kept_def)
next
  case emit_functions
  then show ?thesis by (simp add: records_kept_def)
qed

lemma run_records_kept:
  assumes "run clk cs s = Inr s'"
  shows "records_kept s s'"
  using assms
proof (rule run_invariant[where P = "records_kept s"])
  show "records_kept s s" by (rule records_kept_refl)
next
  fix c t t'
  assume "records_kept s t" "step clk c t = Inr t'"
  then show "records_kept s t'"
    using step_records_kept records_kept_trans by blast
qed

lemma single_entry:
  assumes "distinct (map fst xs)" "map_of xs k = Some v"
  shows "filter (\<lambda>entry. fst entry = k) xs = [(k, v)]"
  using assms
proof (induction xs)
  case Nil
  then show ?case by simp
next
  case (Cons x xs)
  obtain a b where x: "x = (a, b)" by (cases x)
  show ?case
  proof (cases "a = k")
    case True
    with Cons.prems x have "b = v" "k \<notin> fst ` set xs" by auto
    then have "filter (\<lambda>entry. fst entry = k) xs = []"
      by (auto simp: filter_empty_conv)
    with True x \<open>b = v\<close> show ?thesis by simp
  next
    case False
    with Cons x show ?thesis by simp
  qed
qed

text \<open>
  Claim C8. Once a file has a recorded start and a recorded end, no later call changes
  either of them (entering the file again and leaving it again included), and the next
  emission holds exactly one entry for the file, whose event is a PREPROCESS event with
  the display name of the file that spans from that first start to that first end.
\<close>

theorem first_interval_is_kept:
  assumes "run clk before initial_tracker = Inr s"
    and "map_of (preprocess_start s) f = Some st" and "preprocess_end s f = Some en"
    and "f \<noteq> CIRCULAR_POISON_VALUE"
    and "run clk later s = Inr s'"
  shows "map_of (preprocess_start s') f = Some st \<and> preprocess_end s' f = Some en \<and>
         (\<exists>s'' new. write_preprocessing_events clk s' = Inr s'' \<and>
            trace_buffer s'' = trace_buffer s' @ new \<and>
            list_all2 (event_of_entry s'') (emitted_files s'') new \<and>
            filter (\<lambda>entry. fst entry = f) (emitted_files s'') = [(f, st)] \<and>
            (\<exists>i<length new. emitted_files s'' ! i = (f, st) \<and>
               new ! i = \<lparr>ev_name = normalized_file_name s'' f, ev_category = PREPROCESS,
                          ev_ts = \<lparr>span_start = st, span_end = en\<rparr>, ev_args = (False, [])\<rparr>))"
proof -
  from run_records_kept[OF assms(5)] assms(2,3)
  have kept: "map_of (preprocess_start s') f = Some st" "preprocess_end s' f = Some en"
    by (simp_all add: records_kept_def)
  have "preprocess_inv s"
    using initial_preprocess_inv assms(1) by (rule run_preprocess_inv)
  then have inv: "preprocess_inv s'"
    using assms(5) by (rule run_preprocess_inv)
  from write_preprocessing_events_result[OF inv, of clk] obtain s'' where
    w: "write_preprocessing_events clk s' = Inr s''" "preprocess_inv s''"
      "preprocess_start s'' = preprocess_start s'"
      "\<forall>f e. preprocess_end s' f = Some e \<longrightarrow> preprocess_end s'' f = Some e"
      "\<forall>(f, st) \<in> set (emitted_files s''). preprocess_end s'' f \<noteq> None"
      "trace_buffer s'' = trace_buffer s' @
             map (\<lambda>(f, st). preprocess_trace_event s'' f st (the (preprocess_end s'' f)))
                 (emitted_files s'')"
    by blast
  define new where
    "new = map (\<lambda>(f, st). preprocess_trace_event s'' f st (the (preprocess_end s'' f)))
               (emitted_files s'')"
  have en'': "preprocess_end s'' f = Some en" using w(4) kept(2) by blast
  have "distinct (map fst (preprocess_start s''))"
    using w(2) by (simp add: preprocess_inv_def)
  from single_entry[OF this, of f st] kept(1)
  have one: "filter (\<lambda>entry. fst entry = f) (preprocess_start s'') = [(f, st)]"
    by (simp add: w(3))
  have "filter (\<lambda>entry. fst entry = f) (emitted_files s'') =
          filter (\<lambda>(g, t). g \<noteq> CIRCULAR_POISON_VALUE) (filter (\<lambda>entry. fst entry = f) (preprocess_start s''))"
    unfolding emitted_files_def filter_filter by (rule filter_cong) auto
  with one assms(4) have only: "filter (\<lambda>entry. fst entry = f) (emitted_files s'') = [(f, st)]"
    by simp
  have "(f, st) \<in> set (filter (\<lambda>entry. fst entry = f) (emitted_files s''))"
    by (simp only: only) simp
  then have "(f, st) \<in> set (emitted_files s'')" by simp
  then obtain i where i: "i < length (emitted_files s'')" "emitted_files s'' ! i = (f, st)"
    by (auto simp: in_set_conv_nth)
  have len: "length new = length (emitted_files s'')" by (simp add: new_def)
  have "new ! i = preprocess_trace_event s'' f st en"
    using i by (simp add: new_def en'')
  then have ev: "new ! i = \<lparr>ev_name = normalized_file_name s'' f, ev_category = PREPROCESS,
                          ev_ts = \<lparr>span_start = st, span_end = en\<rparr>, ev_args = (False, [])\<rparr>"
    by (simp add: preprocess_trace_event_def)
  have at: "\<exists>i<length new. emitted_files s'' ! i = (f, st) \<and>
               new ! i = \<lparr>ev_name = normalized_file_name s'' f, ev_category = PREPROCESS,
                          ev_ts = \<lparr>span_start = st, span_end = en\<rparr>, ev_args = (False, [])\<rparr>"
    using i ev len by auto
  from kept w(1) w(6)[folded new_def] emitted_events_of_entries[OF w(5), folded new_def] only at
  show ?thesis
    by blast
qed

theorem first_interval_is_kept_witness:
  "\<exists>s s'. run ticking_clock [StartPreprocessFile (Some ''a.h'') None, EndPreprocessFile] initial_tracker = Inr s \<and>
      map_of (preprocess_start s) ''a.h'' = Some 10 \<and> preprocess_end s ''a.h'' = Some 20 \<and>
      ''a.h'' \<noteq> CIRCULAR_POISON_VALUE \<and>
      run ticking_clock [StartPreprocessFile (Some ''a.h'') None, EndPreprocessFile] s = Inr s' \<and>
      clock_reads s' = 4 \<and>
      map_of (preprocess_start s') ''a.h'' = Some 10 \<and> preprocess_end s' ''a.h'' = Some 20 \<and>
      (\<exists>s''. write_preprocessing_events ticking_clock s' = Inr s'' \<and>
            trace_buffer s'' =
              [\<lparr>ev_name = ''a.h'', ev_category = PREPROCESS,
                ev_ts = \<lparr>span_start = 10, span_end = 20\<rparr>, ev_args = (False, [])\<rparr>])"
proof -
  define s where "s = initial_tracker\<lparr>preprocess_start := [(''a.h'', 10)],
      preprocess_end := [''a.h'' \<mapsto> 20], last_function_parsed_ts := 23, clock_reads := 2\<rparr>"
  define s' where "s' = s\<lparr>last_function_parsed_ts := 43, clock_reads := 4\<rparr>"
  note eval = start_preprocess_file_effect push_file_def pushed_name_def circular_include_def
    end_preprocess_file_def ns_from_start_def initial_tracker_def CIRCULAR_POISON_VALUE_def
    ticking_clock_def int64_def
  have r1: "run ticking_clock [StartPreprocessFile (Some ''a.h'') None, EndPreprocessFile] initial_tracker = Inr s"
    by (simp add: s_def eval)
  have r2: "run ticking_clock [StartPreprocessFile (Some ''a.h'') None, EndPreprocessFile] s = Inr s'"
    by (simp add: s'_def s_def eval)
  have rec: "map_of (preprocess_start s) ''a.h'' = Some 10" "preprocess_end s ''a.h'' = Some 20"
    by (simp_all add: s_def initial_tracker_def)
  have reads: "clock_reads s' = 4" by (simp add: s'_def)
  have ne: "''a.h'' \<noteq> CIRCULAR_POISON_VALUE" by (simp add: CIRCULAR_POISON_VALUE_def)
  have files: "emitted_files t = [(''a.h'', 10)]" "trace_buffer s' = []"
      "normalized_file_name t ''a.h'' = ''a.h''"
    if "preprocess_start t = preprocess_start s'" "normalized_files_map t = normalized_files_map s'" for t
    using that
    by (simp_all add: emitted_files_def normalized_file_name_def s'_def s_def initial_tracker_def
          CIRCULAR_POISON_VALUE_def)
  note kept = first_interval_is_kept[OF r1 rec ne r2]
  then obtain s'' new where w: "write_preprocessing_events ticking_clock s' = Inr s''"
      "trace_buffer s'' = trace_buffer s' @ new"
      "list_all2 (event_of_entry s'') (emitted_files s'') new"
      "\<exists>i<length new. emitted_files s'' ! i = (''a.h'', 10) \<and>
               new ! i = \<lparr>ev_name = normalized_file_name s'' ''a.h'', ev_category = PREPROCESS,
                          ev_ts = \<lparr>span_start = 10, span_end = 20\<rparr>, ev_args = (False, [])\<rparr>"
    by blast
  from write_preprocessing_events_shape[OF w(1)] obtain n pe c new' where
    "s'' = s'\<lparr>clock_reads := n, preprocess_end := pe, preprocessing_stack := [],
            last_function_parsed_ts := c, trace_buffer := trace_buffer s' @ new'\<rparr>"
    by blast
  then have same: "preprocess_start s'' = preprocess_start s'"
    "normalized_files_map s'' = normalized_files_map s'"
    by simp_all
  note f = files[OF same]
  from list_all2_lengthD[OF w(3)] have "length new = 1"
    by (simp add: f(1))
  with w(4) have "new = [\<lparr>ev_name = ''a.h'', ev_category = PREPROCESS,
                ev_ts = \<lparr>span_start = 10, span_end = 20\<rparr>, ev_args = (False, [])\<rparr>]"
    by (cases new) (auto simp: f(3))
  with w(1,2) have emitted: "\<exists>s''. write_preprocessing_events ticking_clock s' = Inr s'' \<and>
            trace_buffer s'' =
              [\<lparr>ev_name = ''a.h'', ev_category = PREPROCESS,
                ev_ts = \<lparr>span_start = 10, span_end = 20\<rparr>, ev_args = (False, [])\<rparr>]"
    by (simp add: f(2))
  from kept r1 rec ne r2 reads emitted show ?thesis
    by blast
qed

section \<open>Spans under an advancing clock\<close>

lemma advancing_step: "advancing clk \<Longrightarrow> clk n + 6 \<le> clk (Suc n)"
  by (simp add: advancing_def)

lemma advancing_mono:
  assumes "advancing clk"
  shows "mono clk"
proof (rule monoI)
  fix m n :: nat
  assume "m \<le> n"
  then show "clk m \<le> clk n"
  proof (induction rule: dec_induct)
    case base
    show ?case by simp
  next
    case (step k)
    with advancing_step[OF assms, of k] show ?case by simp
  qed
qed

lemma advancing_first:
  assumes "advancing clk"
  shows "3 \<le> clk n"
proof -
  have "3 \<le> clk 0" using assms by (simp add: advancing_def)
  also have "clk 0 \<le> clk n" using advancing_mono[OF assms] by (simp add: monoD)
  finally show ?thesis .
qed

text \<open>No call takes a reading back.\<close>

lemma finish_preprocessing_stage_clock_reads:
  assumes "finish_preprocessing_stage clk s = Inr s'"
  shows "clock_reads s \<le> clock_reads s'"
proof -
  have "\<exists>t. finish_preprocessing_stage clk s = Inr t \<and> clock_reads s \<le> clock_reads t \<and>
          preprocessing_stack t = []"
    by (rule finish_preprocessing_stage_invariant) simp_all
  with assms show ?thesis by auto
qed

lemma step_clock_reads:
  assumes "step clk c s = Inr s'"
  shows "clock_reads s \<le> clock_reads s'"
  using assms
proof (cases rule: step_cases)
  case (enter file_name pfile)
  from start_preprocess_file_shape[OF enter(2)] obtain ps st a b c d where
    "s' = s\<lparr>clock_reads := Suc (clock_reads s), preprocess_start := ps,
            preprocessing_stack := st,
            file_to_include_directory := a, normalized_files_map := b,
            normalized_files := c, conflicted_files := d\<rparr>"
    by blast
  then show ?thesis by simp
next
  case (leave f below)
  then show ?thesis by simp
next
  case drain
  then show ?thesis by (simp add: finish_preprocessing_stage_clock_reads)
next
  case (pass p)
  then show ?thesis by (simp add: start_opt_pass_eq)
next
  case (func info)
  then show ?thesis by (simp add: end_parse_function_cursor)
next
  case emit_files
  then obtain s1 where s1: "finish_preprocessing_stage clk s = Inr s1"
    "write_preprocessing_loop (preprocess_start s1) s1 = Inr s'"
    by (auto simp: write_preprocessing_events_def split: sum.splits)
  from write_preprocessing_loop_fields[OF s1(2)] obtain new where
    "s' = s1\<lparr>trace_buffer := trace_buffer s1 @ new\<rparr>" by blast
  with finish_preprocessing_stage_clock_reads[OF s1(1)] show ?thesis by simp
next
  case (emit_passes ps)
  then show ?thesis by simp
next
  case emit_scopes
  then show ?thesis by simp
next
  case emit_functions
  then show ?thesis by simp
qed

text \<open>The cursor of a reachable state is in range when the readings taken are.\<close>

lemma step_cursor_in_range:
  assumes "cursor_in_range s" "step clk c s = Inr s'" "int64_readings clk (clock_reads s')"
  shows "cursor_in_range s'"
  using assms(2)
proof (cases rule: step_cases)
  case (enter file_name pfile)
  from start_preprocess_file_shape[OF enter(2)] obtain ps st a b c d where
    "s' = s\<lparr>clock_reads := Suc (clock_reads s), preprocess_start := ps,
            preprocessing_stack := st,
            file_to_include_directory := a, normalized_files_map := b,
            normalized_files := c, conflicted_files := d\<rparr>"
    by blast
  with assms(1) show ?thesis by (simp add: cursor_in_range_def)
next
  case (leave f below)
  from assms(3) leave(3) have rng: "int64_readings clk (Suc (clock_reads s))" by simp
  then have now: "0 \<le> clk (clock_reads s)" "clk (clock_reads s) < 2 ^ 63 - 6"
    by (simp_all add: int64_readings_def)
  have w: "int64 (clk (clock_reads s) + 3) = clk (clock_reads s) + 3"
    using int64_reading[OF rng, of "clock_reads s" 3] by simp
  from now show ?thesis
    by (simp add: leave(3) cursor_in_range_def w)
next
  case drain
  show ?thesis
  proof (cases "preprocessing_stack s")
    case Nil
    with drain(2) assms(1) show ?thesis
      by (simp add: finish_preprocessing_stage_empty)
  next
    case (Cons f below)
    then have "preprocessing_stack s \<noteq> []" by simp
    from finish_preprocessing_stage_cursor[OF this, of clk] drain(2)
    have s': "clock_reads s' = clock_reads s + 2 * length (preprocessing_stack s)"
      "last_function_parsed_ts s' = clk (clock_reads s' - 1)"
      by simp_all
    from s'(1) Cons have "clock_reads s' - 1 < clock_reads s'" by simp
    with assms(3) have "0 \<le> clk (clock_reads s' - 1)" "clk (clock_reads s' - 1) < 2 ^ 63 - 6"
      unfolding int64_readings_def by blast+
    then show ?thesis
      by (simp add: cursor_in_range_def s'(2))
  qed
next
  case (pass p)
  with assms(1) show ?thesis by (simp add: start_opt_pass_eq cursor_in_range_def)
next
  case (func info)
  with assms(3) have rng: "int64_readings clk (Suc (clock_reads s))"
    by (simp add: end_parse_function_cursor)
  from end_parse_function_in_range(3)[OF rng assms(1)] func show ?thesis by simp
next
  case emit_files
  then obtain s1 where s1: "finish_preprocessing_stage clk s = Inr s1"
    "write_preprocessing_loop (preprocess_start s1) s1 = Inr s'"
    by (auto simp: write_preprocessing_events_def split: sum.splits)
  from write_preprocessing_loop_fields[OF s1(2)] obtain new where
    s': "s' = s1\<lparr>trace_buffer := trace_buffer s1 @ new\<rparr>" by blast
  have "cursor_in_range s1"
  proof (cases "preprocessing_stack s")
    case Nil
    with s1(1) assms(1) show ?thesis
      by (simp add: finish_preprocessing_stage_empty)
  next
    case (Cons f below)
    then have "preprocessing_stack s \<noteq> []" by simp
    from finish_preprocessing_stage_cursor[OF this, of clk] s1(1)
    have c: "clock_reads s1 = clock_reads s + 2 * length (preprocessing_stack s)"
      "last_function_parsed_ts s1 = clk (clock_reads s1 - 1)"
      by simp_all
    from c(1) Cons have "clock_reads s1 - 1 < clock_reads s'" by (simp add: s')
    with assms(3) have "0 \<le> clk (clock_reads s1 - 1)" "clk (clock_reads s1 - 1) < 2 ^ 63 - 6"
      unfolding int64_readings_def by blast+
    then show ?thesis
      by (simp add: cursor_in_range_def c(2))
  qed
  then show ?thesis by (simp add: s' cursor_in_range_def)
next
  case (emit_passes ps)
  with assms(1) show ?thesis by (simp add: cursor_in_range_def)
next
  case emit_scopes
  with assms(1) show ?thesis by (simp add: cursor_in_range_def)
next
  case emit_functions
  with assms(1) show ?thesis by (simp add: cursor_in_range_def)
qed

lemma run_cursor_in_range:
  assumes "run clk calls initial_tracker = Inr s" "int64_readings clk (clock_reads s)"
  shows "cursor_in_range s"
proof -
  let ?P = "\<lambda>t. int64_readings clk (clock_reads t) \<longrightarrow> cursor_in_range t"
  have "?P s"
    using assms(1)
  proof (rule run_invariant)
    show "?P initial_tracker"
      by (simp add: cursor_in_range_def initial_tracker_def)
  next
    fix c t t'
    assume P: "?P t" and st: "step clk c t = Inr t'"
    show "?P t'"
    proof
      assume rng: "int64_readings clk (clock_reads t')"
      from rng step_clock_reads[OF st] have "int64_readings clk (clock_reads t)"
        by (rule int64_readings_le)
      with P have "cursor_in_range t" by simp
      then show "cursor_in_range t'"
        using st rng by (rule step_cursor_in_range)
    qed
  qed
  with assms(2) show ?thesis by simp
qed

lemma spans_inv_later:
  assumes "spans_inv clk s" "mono clk" "clock_reads s \<le> clock_reads t"
    and "function_events t = function_events s" "scope_events t = scope_events s"
    and "pass_events t = pass_events s" "last_pass t = last_pass s"
    and "last_function_parsed_ts t = last_function_parsed_ts s" "trace_buffer t = trace_buffer s"
  shows "spans_inv clk t"
proof -
  have le: "clk (clock_reads s) \<le> clk (clock_reads t)"
    using assms(2,3) by (rule monoD)
  from assms(1) have scopes: "span_ok (se_ts e) \<and> span_start (se_ts e) \<le> clk (clock_reads s)"
    if "e \<in> set (scope_events s)" for e
    using that by (simp add: spans_inv_def)
  have "\<forall>e \<in> set (scope_events s). span_ok (se_ts e) \<and> span_start (se_ts e) \<le> clk (clock_reads t)"
    using scopes le by fastforce
  with assms(1) le show ?thesis
    unfolding spans_inv_def assms(4-9) by simp
qed

lemma spans_inv_cursor:
  assumes "spans_inv clk s" "mono clk" "clock_reads s \<le> n" "0 \<le> c" "c + 3 \<le> clk n"
  shows "spans_inv clk (s\<lparr>clock_reads := n, preprocess_end := pe, preprocessing_stack := st,
                          last_function_parsed_ts := c\<rparr>)"
proof -
  have le: "clk (clock_reads s) \<le> clk n"
    using assms(2,3) by (rule monoD)
  from assms(1) have scopes: "span_ok (se_ts e) \<and> span_start (se_ts e) \<le> clk (clock_reads s)"
    if "e \<in> set (scope_events s)" for e
    using that by (simp add: spans_inv_def)
  have "\<forall>e \<in> set (scope_events s). span_ok (se_ts e) \<and> span_start (se_ts e) \<le> clk n"
    using scopes le by fastforce
  with assms(1,4,5) le show ?thesis
    unfolding spans_inv_def by simp
qed

lemma spans_inv_buffer:
  assumes "spans_inv clk s" "\<forall>e \<in> set new. span_ok (ev_ts e)"
  shows "spans_inv clk (s\<lparr>trace_buffer := trace_buffer s @ new\<rparr>)"
  using assms unfolding spans_inv_def by auto

lemma start_preprocess_file_spans_inv:
  assumes "spans_inv clk s" "mono clk" "start_preprocess_file clk file_name pfile s = Inr s'"
  shows "spans_inv clk s'"
proof -
  from start_preprocess_file_shape[OF assms(3)] obtain ps st a b c d where
    s': "s' = s\<lparr>clock_reads := Suc (clock_reads s), preprocess_start := ps,
            preprocessing_stack := st,
            file_to_include_directory := a, normalized_files_map := b,
            normalized_files := c, conflicted_files := d\<rparr>"
    by blast
  from assms(1,2) show ?thesis
    by (rule spans_inv_later) (simp_all add: s')
qed

lemma finish_preprocessing_stage_spans_inv:
  assumes "spans_inv clk s" "advancing clk" "finish_preprocessing_stage clk s = Inr s'"
  shows "spans_inv clk s'"
proof -
  have "\<exists>t. finish_preprocessing_stage clk s = Inr t \<and> spans_inv clk t \<and> preprocessing_stack t = []"
    using assms(1)
  proof (rule finish_preprocessing_stage_invariant)
    fix t f below
    assume "spans_inv clk t"
    then show "spans_inv clk
           (t\<lparr>clock_reads := Suc (Suc (clock_reads t)),
              preprocess_end := (if preprocess_end t f = None
                                 then (preprocess_end t)(f \<mapsto> clk (clock_reads t))
                                 else preprocess_end t),
              preprocessing_stack := below, last_function_parsed_ts := clk (Suc (clock_reads t))\<rparr>)"
      using advancing_mono[OF assms(2)]
    proof (rule spans_inv_cursor)
      show "clock_reads t \<le> Suc (Suc (clock_reads t))" by simp
      show "0 \<le> clk (Suc (clock_reads t))"
        using advancing_first[OF assms(2), of "Suc (clock_reads t)"] by simp
      show "clk (Suc (clock_reads t)) + 3 \<le> clk (Suc (Suc (clock_reads t)))"
        using advancing_step[OF assms(2), of "Suc (clock_reads t)"] by simp
    qed
  qed
  with assms(3) show ?thesis by auto
qed

lemma start_opt_pass_spans_inv:
  assumes "spans_inv clk s" "advancing clk" "int64_readings clk (Suc (clock_reads s))"
  shows "spans_inv clk (start_opt_pass clk pass s)"
proof -
  have step: "clk (clock_reads s) + 6 \<le> clk (Suc (clock_reads s))"
    using assms(2) by (rule advancing_step)
  have w: "int64 (clk (clock_reads s) + 1) = clk (clock_reads s) + 1"
    using int64_reading[OF assms(3), of "clock_reads s" 1] by simp
  from assms(1) have scopes: "span_ok (se_ts e) \<and> span_start (se_ts e) \<le> clk (clock_reads s)"
    if "e \<in> set (scope_events s)" for e
    using that by (simp add: spans_inv_def)
  have sc: "\<forall>e \<in> set (scope_events s).
              span_ok (se_ts e) \<and> span_start (se_ts e) \<le> clk (Suc (clock_reads s))"
    using scopes step by fastforce
  from assms(1) have rest: "\<forall>e \<in> set (function_events s). span_ok (fe_ts e)"
    "\<forall>e \<in> set (pass_events s). span_ok (ope_ts e)"
    "span_start (ope_ts (last_pass s)) \<le> clk (clock_reads s)"
    "0 \<le> last_function_parsed_ts s" "last_function_parsed_ts s + 3 \<le> clk (clock_reads s)"
    "\<forall>e \<in> set (trace_buffer s). span_ok (ev_ts e)"
    by (simp_all add: spans_inv_def)
  show ?thesis
    unfolding spans_inv_def start_opt_pass_eq w
    using sc rest step by (simp add: span_ok_def)
qed

lemma end_parse_function_spans_inv:
  assumes "spans_inv clk s" "advancing clk" "int64_readings clk (Suc (clock_reads s))"
  shows "spans_inv clk (end_parse_function clk info s)"
proof -
  have step: "clk (clock_reads s) + 6 \<le> clk (Suc (clock_reads s))"
    using assms(2) by (rule advancing_step)
  have cursor: "0 \<le> last_function_parsed_ts s" "last_function_parsed_ts s + 3 \<le> clk (clock_reads s)"
    using assms(1) by (simp_all add: spans_inv_def)
  have now: "0 \<le> clk (clock_reads s)" "clk (clock_reads s) < 2 ^ 63 - 6"
    using assms(3) by (simp_all add: int64_readings_def)
  have cur: "cursor_in_range s"
    using cursor now by (simp add: cursor_in_range_def)
  note one = end_parse_function_in_range(1,2)[OF assms(3) cur, of info]
  have sc: "span_ok (se_ts e) \<and> span_start (se_ts e) \<le> clk (Suc (clock_reads s))"
    if "e \<in> set (scope_events s)" for e
  proof -
    from that assms(1) have "span_ok (se_ts e)" "span_start (se_ts e) \<le> clk (clock_reads s)"
      by (simp_all add: spans_inv_def)
    with step show ?thesis by simp
  qed
  have fresh: "span_ok \<lparr>span_start = last_function_parsed_ts s + 3 - 1, span_end = clk (clock_reads s) + 1\<rparr>"
    "last_function_parsed_ts s + 3 - 1 \<le> clk (Suc (clock_reads s))"
    using cursor step by (simp_all add: span_ok_def)
  have scopes: "\<forall>e \<in> set (scope_events (end_parse_function clk info s)).
                  span_ok (se_ts e) \<and> span_start (se_ts e) \<le> clk (Suc (clock_reads s))"
  proof (cases "ff_scope_name info")
    case None
    with sc show ?thesis
      by (simp add: one(2))
  next
    case (Some nm)
    show ?thesis
    proof (cases "scope_events s \<noteq> [] \<and> did_last_function_have_scope s \<and>
                  se_name (last (scope_events s)) = nm")
      case True
      from True have mem: "last (scope_events s) \<in> set (scope_events s)" by simp
      from assms(1) mem have "span_start (se_ts (last (scope_events s))) \<le> clk (clock_reads s)"
        by (simp add: spans_inv_def)
      with step have upd:
        "span_ok ((se_ts (last (scope_events s)))\<lparr>span_end := clk (clock_reads s) + 1\<rparr>)"
        "span_start (se_ts (last (scope_events s))) \<le> clk (Suc (clock_reads s))"
        by (simp_all add: span_ok_def)
      have rest: "\<forall>e \<in> set (butlast (scope_events s)).
                    span_ok (se_ts e) \<and> span_start (se_ts e) \<le> clk (Suc (clock_reads s))"
        using sc by (blast dest: in_set_butlastD)
      have eq: "scope_events (end_parse_function clk info s) =
          butlast (scope_events s) @
            [(last (scope_events s))\<lparr>se_ts := (se_ts (last (scope_events s)))\<lparr>span_end := clk (clock_reads s) + 1\<rparr>\<rparr>]"
        unfolding one(2) Some
        by (simp only: option.case if_P[OF True])
      show ?thesis
        unfolding eq using rest upd by simp
    next
      case False
      have eq: "scope_events (end_parse_function clk info s) =
          scope_events s @
            [\<lparr>se_name = nm, se_type = ff_scope_type info,
              se_ts = \<lparr>span_start = last_function_parsed_ts s + 3 - 1, span_end = clk (clock_reads s) + 1\<rparr>\<rparr>]"
        unfolding one(2) Some
        by (simp only: option.case if_not_P[OF False])
      show ?thesis
        unfolding eq using sc fresh by simp
    qed
  qed
  have funs: "\<forall>e \<in> set (function_events (end_parse_function clk info s)). span_ok (fe_ts e)"
    using assms(1) cursor
    by (simp add: one(1) spans_inv_def span_ok_def)
  have passes: "\<forall>e \<in> set (pass_events s). span_ok (ope_ts e)"
    "span_start (ope_ts (last_pass s)) \<le> clk (Suc (clock_reads s))"
    "\<forall>e \<in> set (trace_buffer s). span_ok (ev_ts e)"
    using assms(1) step by (simp_all add: spans_inv_def)
  show ?thesis
    unfolding spans_inv_def end_parse_function_cursor end_parse_function_frame
    using scopes funs passes step now by simp
qed

text \<open>The PREPROCESS events of an emission under a clock that never goes back.\<close>

lemma write_preprocessing_events_in_order:
  assumes "mono clk" "preprocess_inv s" "preprocess_times clk s"
    and "write_preprocessing_events clk s = Inr s'"
  shows "\<exists>new. trace_buffer s' = trace_buffer s @ new \<and> (\<forall>e \<in> set new. span_ok (ev_ts e))"
proof -
  from write_preprocessing_events_result[OF assms(2), of clk] assms(4)
  have res: "\<forall>(f, st) \<in> set (emitted_files s'). preprocess_end s' f \<noteq> None"
    "trace_buffer s' = trace_buffer s @
       map (\<lambda>(f, st). preprocess_trace_event s' f st (the (preprocess_end s' f))) (emitted_files s')"
    by auto
  have times: "preprocess_times clk s'"
    using assms(3,1,4) by (rule write_preprocessing_events_preprocess_times)
  have "\<forall>e \<in> set (map (\<lambda>(f, st). preprocess_trace_event s' f st (the (preprocess_end s' f)))
                       (emitted_files s')). span_ok (ev_ts e)"
    using emitted_events_in_order[OF times res(1)] by blast
  with res(2) show ?thesis by blast
qed

lemma write_preprocessing_events_spans_inv:
  assumes "spans_inv clk s" "advancing clk" "preprocess_inv s" "preprocess_times clk s"
    and "write_preprocessing_events clk s = Inr s'"
  shows "spans_inv clk s'"
proof -
  from assms(5) obtain s1 where s1: "finish_preprocessing_stage clk s = Inr s1"
    "write_preprocessing_loop (preprocess_start s1) s1 = Inr s'"
    by (auto simp: write_preprocessing_events_def split: sum.splits)
  from write_preprocessing_loop_fields[OF s1(2)] obtain new where
    s': "s' = s1\<lparr>trace_buffer := trace_buffer s1 @ new\<rparr>" by blast
  from write_preprocessing_events_in_order[OF advancing_mono[OF assms(2)] assms(3,4,5)]
  obtain new' where new': "trace_buffer s' = trace_buffer s @ new'"
    "\<forall>e \<in> set new'. span_ok (ev_ts e)"
    by blast
  have "trace_buffer s' = trace_buffer s @ new"
    by (simp add: s' finish_preprocessing_stage_fields(2)[OF s1(1)])
  with new' have ok: "\<forall>e \<in> set new. span_ok (ev_ts e)"
    by simp
  have "spans_inv clk s1"
    using assms(1,2) s1(1) by (rule finish_preprocessing_stage_spans_inv)
  then show ?thesis
    unfolding s' using ok by (rule spans_inv_buffer)
qed

lemma pass_events_zip:
  assumes "map ope_pass evs = map Some ps"
  shows "set (map ev_ts (map2 pass_trace_event ps (map ope_ts evs))) \<subseteq> ope_ts ` set evs"
proof -
  have "length ps = length evs" using assms by (metis length_map)
  then show ?thesis
    by (induction ps evs rule: list_induct2) (auto simp: pass_trace_event_def)
qed

lemma step_spans_inv:
  assumes "spans_inv clk s" "advancing clk" "preprocess_inv s" "preprocess_times clk s"
    and "step clk c s = Inr s'" and "int64_readings clk (clock_reads s')"
  shows "spans_inv clk s'"
  using assms(5)
proof (cases rule: step_cases)
  case (enter file_name pfile)
  with assms(1) advancing_mono[OF assms(2)] show ?thesis
    by (auto intro: start_preprocess_file_spans_inv)
next
  case (leave f below)
  from assms(6) leave(3) have rng: "int64_readings clk (Suc (clock_reads s))" by simp
  have w: "int64 (clk (clock_reads s) + 3) = clk (clock_reads s) + 3"
    using int64_reading[OF rng, of "clock_reads s" 3] by simp
  have "spans_inv clk (s\<lparr>clock_reads := Suc (clock_reads s),
          preprocess_end := (if preprocess_end s f = None
                             then (preprocess_end s)(f \<mapsto> clk (clock_reads s))
                             else preprocess_end s),
          preprocessing_stack := below,
          last_function_parsed_ts := clk (clock_reads s) + 3\<rparr>)"
    using assms(1) advancing_mono[OF assms(2)]
  proof (rule spans_inv_cursor)
    show "clock_reads s \<le> Suc (clock_reads s)" by simp
    show "0 \<le> clk (clock_reads s) + 3"
      using advancing_first[OF assms(2), of "clock_reads s"] by simp
    show "clk (clock_reads s) + 3 + 3 \<le> clk (Suc (clock_reads s))"
      using advancing_step[OF assms(2), of "clock_reads s"] by simp
  qed
  with leave(3) show ?thesis by (simp add: w)
next
  case drain
  with assms(1,2) show ?thesis by (auto intro: finish_preprocessing_stage_spans_inv)
next
  case (pass p)
  with assms(6) have "int64_readings clk (Suc (clock_reads s))"
    by (simp add: start_opt_pass_eq)
  with pass assms(1,2) show ?thesis by (simp add: start_opt_pass_spans_inv)
next
  case (func info)
  with assms(6) have "int64_readings clk (Suc (clock_reads s))"
    by (simp add: end_parse_function_cursor)
  with func assms(1,2) show ?thesis by (simp add: end_parse_function_spans_inv)
next
  case emit_files
  with assms(1-4) show ?thesis by (auto intro: write_preprocessing_events_spans_inv)
next
  case (emit_passes ps)
  have "\<forall>e \<in> set (map2 pass_trace_event ps (map ope_ts (pass_events s))). span_ok (ev_ts e)"
    using pass_events_zip[OF emit_passes(2)] assms(1) unfolding spans_inv_def by fastforce
  with assms(1) show ?thesis
    unfolding emit_passes(3) by (rule spans_inv_buffer)
next
  case emit_scopes
  have "\<forall>e \<in> set (map scope_trace_event (scope_events s)). span_ok (ev_ts e)"
    using assms(1) unfolding spans_inv_def by (simp add: scope_trace_event_def)
  with assms(1) show ?thesis
    unfolding emit_scopes(2) by (rule spans_inv_buffer)
next
  case emit_functions
  have "\<forall>e \<in> set (map (function_trace_event s) (function_events s)). span_ok (ev_ts e)"
    using assms(1) unfolding spans_inv_def by (simp add: function_trace_event_def)
  with assms(1) show ?thesis
    unfolding emit_functions(2) by (rule spans_inv_buffer)
qed

lemma run_spans_inv:
  assumes "advancing clk" "run clk calls initial_tracker = Inr s"
    and "int64_readings clk (clock_reads s)"
  shows "spans_inv clk s"
proof -
  let ?P = "\<lambda>t. (int64_readings clk (clock_reads t) \<longrightarrow> spans_inv clk t) \<and>
                 preprocess_inv t \<and> preprocess_times clk t"
  have "?P s"
    using assms(2)
  proof (rule run_invariant)
    have "3 \<le> clk 0" using assms(1) by (simp add: advancing_def)
    then have "spans_inv clk initial_tracker"
      by (simp add: spans_inv_def initial_tracker_def)
    moreover have "preprocess_times clk initial_tracker"
      by (simp add: preprocess_times_def initial_tracker_def)
    ultimately show "?P initial_tracker"
      using initial_preprocess_inv by simp
  next
    fix c t t'
    assume P: "?P t" and st: "step clk c t = Inr t'"
    have "spans_inv clk t'" if rng: "int64_readings clk (clock_reads t')"
    proof -
      from rng step_clock_reads[OF st] have "int64_readings clk (clock_reads t)"
        by (rule int64_readings_le)
      with P have "spans_inv clk t" by simp
      then show ?thesis
        using assms(1) _ _ st rng by (rule step_spans_inv) (simp_all add: P)
    qed
    moreover have "preprocess_inv t'"
      using P st step_preprocess_inv by blast
    moreover have "preprocess_times clk t'"
      using P st step_preprocess_times[OF _ advancing_mono[OF assms(1)]] by blast
    ultimately show "?P t'" by simp
  qed
  with assms(3) show ?thesis by simp
qed

section \<open>Pass spans under a strictly increasing clock\<close>

lemma step_pass_spans_inv:
  assumes "pass_spans_inv clk s" "strict_mono clk" "step clk c s = Inr s'"
    and "int64_readings clk (clock_reads s')"
  shows "pass_spans_inv clk s'"
proof (cases c)
  case (StartOptPass pass)
  with assms(3) have s': "s' = start_opt_pass clk pass s" by simp
  with assms(4) have rng: "int64_readings clk (Suc (clock_reads s))"
    by (simp add: start_opt_pass_eq)
  have w: "int64 (clk (clock_reads s) + 1) = clk (clock_reads s) + 1"
    using int64_reading[OF rng, of "clock_reads s" 1] by simp
  have "clk (clock_reads s) < clk (Suc (clock_reads s))"
    using assms(2) by (simp add: strict_mono_less)
  with assms(1) show ?thesis
    unfolding s' pass_spans_inv_def start_opt_pass_eq w
    by (auto simp: span_ok_def)
next
  case (StartPreprocessFile file_name pfile)
  with step_pass_fields[OF assms(3)] have same: "pass_events s' = pass_events s" "last_pass s' = last_pass s"
    by simp_all
  have "clk (clock_reads s) \<le> clk (clock_reads s')"
    using assms(2) step_clock_reads[OF assms(3)] by (simp add: strict_mono_less_eq)
  with assms(1) show ?thesis
    unfolding pass_spans_inv_def same by auto
next
  case EndPreprocessFile
  with step_pass_fields[OF assms(3)] have same: "pass_events s' = pass_events s" "last_pass s' = last_pass s"
    by simp_all
  have "clk (clock_reads s) \<le> clk (clock_reads s')"
    using assms(2) step_clock_reads[OF assms(3)] by (simp add: strict_mono_less_eq)
  with assms(1) show ?thesis
    unfolding pass_spans_inv_def same by auto
next
  case FinishPreprocessingStage
  with step_pass_fields[OF assms(3)] have same: "pass_events s' = pass_events s" "last_pass s' = last_pass s"
    by simp_all
  have "clk (clock_reads s) \<le> clk (clock_reads s')"
    using assms(2) step_clock_reads[OF assms(3)] by (simp add: strict_mono_less_eq)
  with assms(1) show ?thesis
    unfolding pass_spans_inv_def same by auto
next
  case (EndParseFunction info)
  with step_pass_fields[OF assms(3)] have same: "pass_events s' = pass_events s" "last_pass s' = last_pass s"
    by simp_all
  have "clk (clock_reads s) \<le> clk (clock_reads s')"
    using assms(2) step_clock_reads[OF assms(3)] by (simp add: strict_mono_less_eq)
  with assms(1) show ?thesis
    unfolding pass_spans_inv_def same by auto
next
  case WritePreprocessingEvents
  with step_pass_fields[OF assms(3)] have same: "pass_events s' = pass_events s" "last_pass s' = last_pass s"
    by simp_all
  have "clk (clock_reads s) \<le> clk (clock_reads s')"
    using assms(2) step_clock_reads[OF assms(3)] by (simp add: strict_mono_less_eq)
  with assms(1) show ?thesis
    unfolding pass_spans_inv_def same by auto
next
  case WriteOptPassEvents
  with step_pass_fields[OF assms(3)] have same: "pass_events s' = pass_events s" "last_pass s' = last_pass s"
    by simp_all
  have "clk (clock_reads s) \<le> clk (clock_reads s')"
    using assms(2) step_clock_reads[OF assms(3)] by (simp add: strict_mono_less_eq)
  with assms(1) show ?thesis
    unfolding pass_spans_inv_def same by auto
next
  case WriteAllScopes
  with step_pass_fields[OF assms(3)] have same: "pass_events s' = pass_events s" "last_pass s' = last_pass s"
    by simp_all
  have "clk (clock_reads s) \<le> clk (clock_reads s')"
    using assms(2) step_clock_reads[OF assms(3)] by (simp add: strict_mono_less_eq)
  with assms(1) show ?thesis
    unfolding pass_spans_inv_def same by auto
next
  case WriteAllFunctions
  with step_pass_fields[OF assms(3)] have same: "pass_events s' = pass_events s" "last_pass s' = last_pass s"
    by simp_all
  have "clk (clock_reads s) \<le> clk (clock_reads s')"
    using assms(2) step_clock_reads[OF assms(3)] by (simp add: strict_mono_less_eq)
  with assms(1) show ?thesis
    unfolding pass_spans_inv_def same by auto
qed

lemma run_pass_spans_inv:
  assumes "strict_mono clk" "run clk calls initial_tracker = Inr s"
    and "int64_readings clk (clock_reads s)"
  shows "pass_spans_inv clk s"
proof -
  let ?P = "\<lambda>t. int64_readings clk (clock_reads t) \<longrightarrow> pass_spans_inv clk t"
  have "?P s"
    using assms(2)
  proof (rule run_invariant)
    show "?P initial_tracker"
      by (simp add: pass_spans_inv_def initial_tracker_def)
  next
    fix c t t'
    assume P: "?P t" and st: "step clk c t = Inr t'"
    show "?P t'"
    proof
      assume rng: "int64_readings clk (clock_reads t')"
      from rng step_clock_reads[OF st] have "int64_readings clk (clock_reads t)"
        by (rule int64_readings_le)
      with P have "pass_spans_inv clk t" by simp
      then show "pass_spans_inv clk t'"
        using assms(1) st rng by (rule step_pass_spans_inv)
    qed
  qed
  with assms(3) show ?thesis by simp
qed

text \<open>
  Claim C3, as amended. In every state that a sequence of calls reaches from the initial
  state: the PREPROCESS events that \<open>write_preprocessing_events\<close> emits start no later
  than they end under every clock that never goes back, one that repeats a value
  included; the pass events that \<open>write_opt_pass_events\<close> emits do so under every
  strictly increasing clock; and every event that has been passed to the trace buffer,
  the function and scope events included, does so under a clock whose first reading is
  at least 3 and which advances by at least 6 ns between consecutive readings. The span
  that the next \<open>end_parse_function\<close> records is in order exactly when the reading of
  that call is at least 3 ns after the cursor, so nothing is promised to function events
  under a clock that repeats a value. Wherever the source adds to a timestamp, the readings that
  the calls have taken are timestamps in the range of \<open>int64_readings\<close>.
\<close>

theorem emitted_spans_in_order:
  assumes "run clk calls initial_tracker = Inr s"
  shows
    "(mono clk \<longrightarrow>
        (\<forall>s'. write_preprocessing_events clk s = Inr s' \<longrightarrow>
           (\<forall>e \<in> set (drop (length (trace_buffer s)) (trace_buffer s')).
              span_start (ev_ts e) \<le> span_end (ev_ts e)))) \<and>
     (strict_mono clk \<and> int64_readings clk (clock_reads s) \<longrightarrow>
        (\<forall>s'. write_opt_pass_events s = Inr s' \<longrightarrow>
           (\<forall>e \<in> set (drop (length (trace_buffer s)) (trace_buffer s')).
              span_start (ev_ts e) \<le> span_end (ev_ts e)))) \<and>
     (advancing clk \<and> int64_readings clk (clock_reads s) \<longrightarrow>
        (\<forall>e \<in> set (trace_buffer s). span_start (ev_ts e) \<le> span_end (ev_ts e))) \<and>
     (int64_readings clk (clock_reads s) \<longrightarrow>
        (span_start (fe_ts (last (function_events (end_parse_function clk info s))))
           \<le> span_end (fe_ts (last (function_events (end_parse_function clk info s))))
         \<longleftrightarrow> last_function_parsed_ts s + 3 \<le> clk (clock_reads s)))"
proof (intro conjI impI allI)
  fix s'
  assume mono: "mono clk" and w: "write_preprocessing_events clk s = Inr s'"
  from run_preprocess_invs[OF mono assms] have "preprocess_inv s" "preprocess_times clk s"
    by simp_all
  from write_preprocessing_events_in_order[OF mono this w] obtain new where
    "trace_buffer s' = trace_buffer s @ new" "\<forall>e \<in> set new. span_ok (ev_ts e)"
    by blast
  then show "\<forall>e \<in> set (drop (length (trace_buffer s)) (trace_buffer s')).
              span_start (ev_ts e) \<le> span_end (ev_ts e)"
    by (simp add: span_ok_def)
next
  fix s'
  assume clock: "strict_mono clk \<and> int64_readings clk (clock_reads s)"
    and w: "write_opt_pass_events s = Inr s'"
  from clock assms have inv: "pass_spans_inv clk s"
    by (auto intro: run_pass_spans_inv)
  from w have "step clk WriteOptPassEvents s = Inr s'" by simp
  then obtain ps where ps: "map ope_pass (pass_events s) = map Some ps"
    "s' = s\<lparr>trace_buffer := trace_buffer s @ map2 pass_trace_event ps (map ope_ts (pass_events s))\<rparr>"
    by (cases rule: step_cases) simp_all
  have "\<forall>e \<in> set (map2 pass_trace_event ps (map ope_ts (pass_events s))). span_ok (ev_ts e)"
    using pass_events_zip[OF ps(1)] inv unfolding pass_spans_inv_def by fastforce
  then show "\<forall>e \<in> set (drop (length (trace_buffer s)) (trace_buffer s')).
              span_start (ev_ts e) \<le> span_end (ev_ts e)"
    by (simp add: ps(2) span_ok_def)
next
  assume "advancing clk \<and> int64_readings clk (clock_reads s)"
  with assms have "spans_inv clk s"
    by (auto intro: run_spans_inv)
  then show "\<forall>e \<in> set (trace_buffer s). span_start (ev_ts e) \<le> span_end (ev_ts e)"
    by (simp add: spans_inv_def span_ok_def)
next
  assume "int64_readings clk (clock_reads s)"
  with assms have "cursor_in_range s"
    by (rule run_cursor_in_range)
  then have "int64 (last_function_parsed_ts s + 3) = last_function_parsed_ts s + 3"
    by (rule int64_cursor)
  then show "span_start (fe_ts (last (function_events (end_parse_function clk info s))))
           \<le> span_end (fe_ts (last (function_events (end_parse_function clk info s))))
         \<longleftrightarrow> last_function_parsed_ts s + 3 \<le> clk (clock_reads s)"
    by (simp add: end_parse_function_function_events)
qed

theorem emitted_spans_in_order_witness:
  "mono ticking_clock \<and> strict_mono ticking_clock \<and> advancing ticking_clock \<and>
   (\<exists>s. run ticking_clock
          [StartPreprocessFile (Some ''a.h'') None, EndPreprocessFile,
           StartOptPass (Some \<lparr>pass_name = ''ssa'', pass_kind = OPT_GIMPLE_PASS, static_pass_number = 1\<rparr>),
           EndParseFunction \<lparr>ff_name = ''f'', ff_file_name = ''a.cc'', ff_scope_name = Some ''Foo'',
                             ff_scope_type = NAMESPACE\<rparr>,
           StartOptPass None, WriteAllScopes, WriteAllFunctions]
          initial_tracker = Inr s \<and>
        int64_readings ticking_clock (clock_reads s) \<and>
        map ev_ts (trace_buffer s) =
          [\<lparr>span_start = 25, span_end = 41\<rparr>, \<lparr>span_start = 26, span_end = 40\<rparr>] \<and>
        (\<forall>e \<in> set (trace_buffer s). span_start (ev_ts e) \<le> span_end (ev_ts e)) \<and>
        (\<exists>s'. write_preprocessing_events ticking_clock s = Inr s' \<and>
           map ev_ts (drop (length (trace_buffer s)) (trace_buffer s')) =
             [\<lparr>span_start = 10, span_end = 20\<rparr>] \<and>
           (\<forall>e \<in> set (drop (length (trace_buffer s)) (trace_buffer s')).
              span_start (ev_ts e) \<le> span_end (ev_ts e))) \<and>
        (\<exists>s'. write_opt_pass_events s = Inr s' \<and>
           map ev_ts (drop (length (trace_buffer s)) (trace_buffer s')) =
             [\<lparr>span_start = 31, span_end = 50\<rparr>] \<and>
           (\<forall>e \<in> set (drop (length (trace_buffer s)) (trace_buffer s')).
              span_start (ev_ts e) \<le> span_end (ev_ts e))) \<and>
        last_function_parsed_ts s + 3 \<le> ticking_clock (clock_reads s) \<and>
        fe_ts (last (function_events (end_parse_function ticking_clock
           \<lparr>ff_name = ''g'', ff_file_name = ''a.cc'', ff_scope_name = None, ff_scope_type = UNKNOWN\<rparr>
           s))) = \<lparr>span_start = 43, span_end = 60\<rparr> \<and>
        span_start (fe_ts (last (function_events (end_parse_function ticking_clock
           \<lparr>ff_name = ''g'', ff_file_name = ''a.cc'', ff_scope_name = None, ff_scope_type = UNKNOWN\<rparr>
           s))))
          \<le> span_end (fe_ts (last (function_events (end_parse_function ticking_clock
           \<lparr>ff_name = ''g'', ff_file_name = ''a.cc'', ff_scope_name = None, ff_scope_type = UNKNOWN\<rparr>
           s)))))"
proof -
  define g where "g = \<lparr>ff_name = ''g'', ff_file_name = ''a.cc'', ff_scope_name = None, ff_scope_type = UNKNOWN\<rparr>"
  define ssa where "ssa = \<lparr>pass_name = ''ssa'', pass_kind = OPT_GIMPLE_PASS, static_pass_number = 1\<rparr>"
  define f where "f = \<lparr>ff_name = ''f'', ff_file_name = ''a.cc'', ff_scope_name = Some ''Foo'',
                             ff_scope_type = NAMESPACE\<rparr>"
  define calls where "calls =
          [StartPreprocessFile (Some ''a.h'') None, EndPreprocessFile,
           StartOptPass (Some ssa), EndParseFunction f,
           StartOptPass None, WriteAllScopes, WriteAllFunctions]"
  define s0 where "s0 = initial_tracker\<lparr>preprocess_start := [(''a.h'', 10)],
      preprocess_end := [''a.h'' \<mapsto> 20], last_function_parsed_ts := 23, clock_reads := 2\<rparr>"
  define s where "s = write_all_functions (write_all_scopes
      (start_opt_pass ticking_clock None
         (end_parse_function ticking_clock f
            (start_opt_pass ticking_clock (Some ssa) s0))))"
  note eval = start_preprocess_file_effect push_file_def pushed_name_def circular_include_def
    end_preprocess_file_def ns_from_start_def initial_tracker_def CIRCULAR_POISON_VALUE_def
    ticking_clock_def int64_def
  have mono: "mono ticking_clock"
    by (simp add: mono_def ticking_clock_def)
  have smono: "strict_mono ticking_clock"
    by (simp add: strict_mono_def ticking_clock_def)
  have adv: "advancing ticking_clock"
    by (simp add: advancing_def ticking_clock_def)
  have r0: "run ticking_clock [StartPreprocessFile (Some ''a.h'') None, EndPreprocessFile] initial_tracker = Inr s0"
    by (simp add: s0_def eval)
  have r1: "run ticking_clock [StartOptPass (Some ssa), EndParseFunction f,
           StartOptPass None, WriteAllScopes, WriteAllFunctions] s0 = Inr s"
    by (simp add: s_def)
  have split: "calls = [StartPreprocessFile (Some ''a.h'') None, EndPreprocessFile] @
      [StartOptPass (Some ssa), EndParseFunction f, StartOptPass None, WriteAllScopes, WriteAllFunctions]"
    by (simp add: calls_def)
  have r: "run ticking_clock calls initial_tracker = Inr s"
    by (simp only: split run_append r0 r1 sum.case)
  note unfold = s_def s0_def ssa_def f_def start_opt_pass_eq end_parse_function_def ns_from_start_def
    write_all_scopes_eq write_all_functions_eq scope_trace_event_def function_trace_event_def
    initial_tracker_def ticking_clock_def int64_def
  have fields: "clock_reads s = 5" "preprocessing_stack s = []"
    "preprocess_start s = [(''a.h'', 10)]" "preprocess_end s ''a.h'' = Some 20"
    "pass_events s = [\<lparr>ope_pass = Some ssa, ope_ts = \<lparr>span_start = 31, span_end = 50\<rparr>\<rparr>]"
    "last_function_parsed_ts s = 40"
    by (simp_all add: unfold)
  have buffer: "map ev_ts (trace_buffer s) =
          [\<lparr>span_start = 25, span_end = 41\<rparr>, \<lparr>span_start = 26, span_end = 40\<rparr>]"
    by (simp add: unfold)
  have rng: "int64_readings ticking_clock (clock_reads s)"
    by (auto simp: fields(1) int64_readings_def ticking_clock_def)
  have files: "write_preprocessing_events ticking_clock s =
      Inr (s\<lparr>trace_buffer := trace_buffer s @
              [preprocess_trace_event s ''a.h'' 10 20]\<rparr>)"
    by (simp add: write_preprocessing_events_def finish_preprocessing_stage_empty fields
          add_event_def CIRCULAR_POISON_VALUE_def)
  have passes: "write_opt_pass_events s =
      Inr (s\<lparr>trace_buffer := trace_buffer s @
              [pass_trace_event ssa \<lparr>span_start = 31, span_end = 50\<rparr>]\<rparr>)"
    by (simp add: write_opt_pass_events_def fields add_event_def)
  have cursor: "last_function_parsed_ts s + 3 \<le> ticking_clock (clock_reads s)"
    by (simp add: fields ticking_clock_def)
  have nxt: "fe_ts (last (function_events (end_parse_function ticking_clock g s))) =
      \<lparr>span_start = 43, span_end = 60\<rparr>"
    by (simp add: end_parse_function_function_events fields int64_def ticking_clock_def)
  note inst = emitted_spans_in_order[OF r, of g]
  note tier1 = inst[THEN conjunct1, THEN mp, OF mono, THEN spec, THEN mp, OF files]
  note tier2 = inst[THEN conjunct2, THEN conjunct1, THEN mp, OF conjI[OF smono rng], THEN spec,
      THEN mp, OF passes]
  note tier3 = inst[THEN conjunct2, THEN conjunct2, THEN conjunct1, THEN mp, OF conjI[OF adv rng]]
  note exact = inst[THEN conjunct2, THEN conjunct2, THEN conjunct2, THEN mp, OF rng]
  have ordered: "span_start (fe_ts (last (function_events (end_parse_function ticking_clock g s))))
     \<le> span_end (fe_ts (last (function_events (end_parse_function ticking_clock g s))))"
    unfolding exact by (rule cursor)
  have e1: "\<exists>s'. write_preprocessing_events ticking_clock s = Inr s' \<and>
           map ev_ts (drop (length (trace_buffer s)) (trace_buffer s')) =
             [\<lparr>span_start = 10, span_end = 20\<rparr>] \<and>
           (\<forall>e \<in> set (drop (length (trace_buffer s)) (trace_buffer s')).
              span_start (ev_ts e) \<le> span_end (ev_ts e))"
  proof (intro exI conjI)
    show "write_preprocessing_events ticking_clock s = Inr (s\<lparr>trace_buffer := trace_buffer s @
              [preprocess_trace_event s ''a.h'' 10 20]\<rparr>)"
      by (rule files)
    show "map ev_ts (drop (length (trace_buffer s)) (trace_buffer (s\<lparr>trace_buffer := trace_buffer s @
              [preprocess_trace_event s ''a.h'' 10 20]\<rparr>))) = [\<lparr>span_start = 10, span_end = 20\<rparr>]"
      by (simp add: preprocess_trace_event_def)
    show "\<forall>e \<in> set (drop (length (trace_buffer s)) (trace_buffer (s\<lparr>trace_buffer := trace_buffer s @
              [preprocess_trace_event s ''a.h'' 10 20]\<rparr>))).
              span_start (ev_ts e) \<le> span_end (ev_ts e)"
      by (rule tier1)
  qed
  have e2: "\<exists>s'. write_opt_pass_events s = Inr s' \<and>
           map ev_ts (drop (length (trace_buffer s)) (trace_buffer s')) =
             [\<lparr>span_start = 31, span_end = 50\<rparr>] \<and>
           (\<forall>e \<in> set (drop (length (trace_buffer s)) (trace_buffer s')).
              span_start (ev_ts e) \<le> span_end (ev_ts e))"
  proof (intro exI conjI)
    show "write_opt_pass_events s = Inr (s\<lparr>trace_buffer := trace_buffer s @
              [pass_trace_event ssa \<lparr>span_start = 31, span_end = 50\<rparr>]\<rparr>)"
      by (rule passes)
    show "map ev_ts (drop (length (trace_buffer s)) (trace_buffer (s\<lparr>trace_buffer := trace_buffer s @
              [pass_trace_event ssa \<lparr>span_start = 31, span_end = 50\<rparr>]\<rparr>))) =
            [\<lparr>span_start = 31, span_end = 50\<rparr>]"
      by (simp add: pass_trace_event_def)
    show "\<forall>e \<in> set (drop (length (trace_buffer s)) (trace_buffer (s\<lparr>trace_buffer := trace_buffer s @
              [pass_trace_event ssa \<lparr>span_start = 31, span_end = 50\<rparr>]\<rparr>))).
              span_start (ev_ts e) \<le> span_end (ev_ts e)"
      by (rule tier2)
  qed
  have reached: "\<exists>s. run ticking_clock calls initial_tracker = Inr s \<and>
        int64_readings ticking_clock (clock_reads s) \<and>
        map ev_ts (trace_buffer s) =
          [\<lparr>span_start = 25, span_end = 41\<rparr>, \<lparr>span_start = 26, span_end = 40\<rparr>] \<and>
        (\<forall>e \<in> set (trace_buffer s). span_start (ev_ts e) \<le> span_end (ev_ts e)) \<and>
        (\<exists>s'. write_preprocessing_events ticking_clock s = Inr s' \<and>
           map ev_ts (drop (length (trace_buffer s)) (trace_buffer s')) =
             [\<lparr>span_start = 10, span_end = 20\<rparr>] \<and>
           (\<forall>e \<in> set (drop (length (trace_buffer s)) (trace_buffer s')).
              span_start (ev_ts e) \<le> span_end (ev_ts e))) \<and>
        (\<exists>s'. write_opt_pass_events s = Inr s' \<and>
           map ev_ts (drop (length (trace_buffer s)) (trace_buffer s')) =
             [\<lparr>span_start = 31, span_end = 50\<rparr>] \<and>
           (\<forall>e \<in> set (drop (length (trace_buffer s)) (trace_buffer s')).
              span_start (ev_ts e) \<le> span_end (ev_ts e))) \<and>
        last_function_parsed_ts s + 3 \<le> ticking_clock (clock_reads s) \<and>
        fe_ts (last (function_events (end_parse_function ticking_clock g s))) =
          \<lparr>span_start = 43, span_end = 60\<rparr> \<and>
        span_start (fe_ts (last (function_events (end_parse_function ticking_clock g s))))
          \<le> span_end (fe_ts (last (function_events (end_parse_function ticking_clock g s))))"
    by (rule exI[of _ s]) (intro conjI r rng buffer tier3 e1 e2 cursor nxt ordered)
  from mono smono adv reached show ?thesis
    unfolding calls_def ssa_def f_def g_def by (intro conjI)
qed

text \<open>
  Claim C3 as stated fails for a clock that repeats a value: the second of two
  consecutive functions is emitted with the span from 103 to 100.
\<close>

theorem frozen_clock_inverts_a_span:
  "map_sum id trace_buffer
     (run frozen_clock
        [EndParseFunction \<lparr>ff_name = ''f'', ff_file_name = ''a.cc'', ff_scope_name = None,
                          ff_scope_type = UNKNOWN\<rparr>,
         EndParseFunction \<lparr>ff_name = ''g'', ff_file_name = ''a.cc'', ff_scope_name = None,
                          ff_scope_type = UNKNOWN\<rparr>,
         WriteAllFunctions] initial_tracker) =
     Inr [\<lparr>ev_name = ''f'', ev_category = FUNCTION, ev_ts = \<lparr>span_start = 3, span_end = 100\<rparr>,
            ev_args = (True, [(''file'', ''a.cc'')])\<rparr>,
          \<lparr>ev_name = ''g'', ev_category = FUNCTION, ev_ts = \<lparr>span_start = 103, span_end = 100\<rparr>,
            ev_args = (True, [(''file'', ''a.cc'')])\<rparr>] \<and>
   \<not> span_start \<lparr>span_start = 103, span_end = 100\<rparr> \<le> span_end \<lparr>span_start = 103, span_end = (100::int)\<rparr>"
  by (simp add: end_parse_function_def ns_from_start_def write_all_functions_eq
        function_trace_event_def normalized_file_name_def initial_tracker_def frozen_clock_def
        int64_def)

end
